theory Spec2Isabelle
  imports Complex_Main "HOL-Library.AList" "HOL-Library.Sublist"
begin

section \<open>Shared notions\<close>

text \<open>
  The three scripts of the repository (\<^verbatim>\<open>index.js\<close>, \<^verbatim>\<open>id.ts\<close>, \<^verbatim>\<open>fetchhhh.ts\<close>) watch the
  pending pool of a node and append one line per transaction sent to a target address.

  Everything the scripts obtain from outside is an oracle indexed by a counter of external
  interactions: the \<open>i\<close>-th interaction of a run is a clock read, a provider call, a file
  write or a random draw, and the environment says what it returns. Timestamps are the
  integer milliseconds of \<^verbatim>\<open>Date.now()\<close>; the numbers of the scripts are integers far below
  \<open>2 ^ 53\<close> and are modelled by \<open>int\<close> and \<open>nat\<close>, delays by exact reals where the scripts
  compute them in double precision.
\<close>

type_synonym TS = int

type_synonym clock = "nat \<Rightarrow> TS"

text \<open>
  \<^verbatim>\<open>String.prototype.toLowerCase\<close> on the ASCII range; hashes and addresses are hexadecimal
  strings, bytes outside \<^verbatim>\<open>A-Z\<close> are left as they are.
\<close>

definition lower_char :: "char \<Rightarrow> char" where
  "lower_char c =
     (let n = (of_char c :: nat)
      in if 65 \<le> n \<and> n \<le> 90 then char_of (n + 32) else c)"

definition toLowerCase :: "string \<Rightarrow> string" where
  "toLowerCase s = map lower_char s"

definition targetAddress :: string where
  "targetAddress = toLowerCase ''0x66a9893cC07D91D95644AEDD05D03f95e1dBA8Af''"


text \<open>A family of pairwise different lower-case strings, for examples of any size.\<close>

definition hash_of :: "nat \<Rightarrow> string" where
  "hash_of i = ''0x'' @ replicate i (CHR ''0'')"


section \<open>fetchhhh.ts: the TTL set\<close>

definition CLEAN_EVERY :: nat where
  "CLEAN_EVERY = 10000"

text \<open>
  \<^verbatim>\<open>class TTLSet\<close>. The field \<open>m\<close> is the \<^verbatim>\<open>Map<string, TS>\<close> as the list of its entries in
  insertion order (the order in which a JavaScript map is iterated); \<open>max_size\<close> is the
  field \<^verbatim>\<open>max\<close>, a number of entries (the class is private to the module and built twice,
  with \<open>SEEN_MAX\<close> and \<open>SAVED_MAX\<close>).
\<close>

record TTLSet =
  m :: "(string \<times> TS) list"
  ttl :: int
  max_size :: nat
  addCount :: nat

definition new_TTLSet :: "int \<Rightarrow> nat \<Rightarrow> TTLSet" where
  "new_TTLSet t mx = \<lparr>m = [], ttl = t, max_size = mx, addCount = 0\<rparr>"

text \<open>
  \<^verbatim>\<open>has(k)\<close>: the clock is read only when the key is in the map; an expired entry is deleted
  and reported absent. The result carries the set and the clock counter after the call.
\<close>

definition has :: "clock \<Rightarrow> nat \<Rightarrow> TTLSet \<Rightarrow> string \<Rightarrow> bool \<times> TTLSet \<times> nat" where
  "has clk n s k =
     (case map_of (m s) k of
        None \<Rightarrow> (False, s, n)
      | Some t \<Rightarrow>
          if t < clk n then (False, s\<lparr>m := AList.delete k (m s)\<rparr>, Suc n)
          else (True, s, Suc n))"

definition size_TTLSet :: "TTLSet \<Rightarrow> nat" where
  "size_TTLSet s = length (m s)"

text \<open>
  The first loop of \<^verbatim>\<open>cleanup()\<close>: \<^verbatim>\<open>for (const [k, exp] of this.m) if (exp < now) this.m.delete(k)\<close>,
  over the entries \<open>es\<close> still to visit, on the map \<open>mp\<close>.
\<close>

fun sweep :: "TS \<Rightarrow> (string \<times> TS) list \<Rightarrow> (string \<times> TS) list \<Rightarrow> (string \<times> TS) list" where
  "sweep now [] mp = mp"
| "sweep now ((k, ex) # es) mp = sweep now es (if ex < now then AList.delete k mp else mp)"

text \<open>
  The second loop: \<^verbatim>\<open>for (let i = 0; i < toRemove; i++) this.m.delete(arr[i][0])\<close>, from
  index \<open>i\<close> on. \<open>toRemove\<close> is \<^verbatim>\<open>size - max\<close> and never exceeds the length of \<open>arr\<close>.
\<close>

function trim :: "(string \<times> TS) list \<Rightarrow> nat \<Rightarrow> nat \<Rightarrow> (string \<times> TS) list \<Rightarrow> (string \<times> TS) list" where
  "trim arr toRemove i mp =
     (if i < toRemove then trim arr toRemove (Suc i) (AList.delete (fst (arr ! i)) mp) else mp)"
  by pat_completeness auto
termination
  by (relation "measure (\<lambda>(arr, toRemove, i, mp). toRemove - i)") auto

declare trim.simps [simp del]

text \<open>
  \<^verbatim>\<open>cleanup()\<close>. \<^verbatim>\<open>arr.sort((a, b) => a[1] - b[1])\<close> is a stable sort by expiry, ascending.
\<close>

definition cleanup :: "clock \<Rightarrow> nat \<Rightarrow> TTLSet \<Rightarrow> TTLSet \<times> nat" where
  "cleanup clk n s =
     (let now = clk n;
          mp1 = sweep now (m s) (m s)
      in if length mp1 > max_size s
         then (let arr = sort_key snd mp1;
                   toRemove = length mp1 - max_size s
               in (s\<lparr>m := trim arr toRemove 0 mp1\<rparr>, Suc n))
         else (s\<lparr>m := mp1\<rparr>, Suc n))"

text \<open>
  \<^verbatim>\<open>add(k)\<close>: \<^verbatim>\<open>Map.set\<close> overwrites the value of a present key in place and appends a new
  key; the counter is incremented before the test.
\<close>

definition add :: "clock \<Rightarrow> nat \<Rightarrow> TTLSet \<Rightarrow> string \<Rightarrow> TTLSet \<times> nat" where
  "add clk n s k =
     (let now = clk n;
          s1 = s\<lparr>m := AList.update k (now + ttl s) (m s), addCount := Suc (addCount s)\<rparr>
      in if addCount s1 mod CLEAN_EVERY = 0 \<or> length (m s1) > max_size s1
         then cleanup clk (Suc n) s1
         else (s1, Suc n))"



section \<open>The environment\<close>

text \<open>
  Values thrown by the collaborators: a rejected provider call, a failed file write, and the
  error \<^verbatim>\<open>listPendingHashes\<close> raises itself when no method answers.
\<close>

datatype exn = RpcError | IOError | TypeError | PendingListError

text \<open>The fields of a transaction response that the scripts read.\<close>

record tx =
  tx_to :: "string option"
  tx_hash :: string

text \<open>
  The reply of \<^verbatim>\<open>provider.send\<close>: \<^verbatim>\<open>null\<close>, the object of \<^verbatim>\<open>txpool_content\<close> (two optional
  buckets, each keyed by sender and then by nonce, in the order of \<^verbatim>\<open>Object.keys\<close>), or the
  array of the legacy methods. A pool entry is reduced to the value of \<^verbatim>\<open>tx?.hash\<close>. A reply
  of another shape that makes the body of a \<^verbatim>\<open>try\<close> throw takes the way of a call that
  throws.
\<close>

type_synonym pool_tx = "string option"

type_synonym bucket = "(string \<times> (string \<times> pool_tx) list) list"

record pool_content =
  pending :: "bucket option"
  queued :: "bucket option"

datatype rpc_value = Null | Content pool_content | Txs "pool_tx list"

text \<open>
  The oracles. Each is asked at the index of the interaction: \<open>clock\<close> is \<^verbatim>\<open>Date.now()\<close>,
  \<open>getTransaction\<close> and \<open>send\<close> are the provider (\<open>Inl\<close> when the call throws),
  \<open>appendFileSync\<close> says whether the write succeeds, \<open>random\<close> is \<^verbatim>\<open>Math.random()\<close>.
  \<open>toISOString\<close> formats a timestamp and \<open>serialized\<close> is \<^verbatim>\<open>Transaction.from(tx).serialized\<close> of
  the library (\<open>None\<close> when it throws).
\<close>

record env =
  clock :: "nat \<Rightarrow> TS"
  getTransaction :: "nat \<Rightarrow> string \<Rightarrow> exn + tx option"
  send :: "nat \<Rightarrow> string \<Rightarrow> exn + rpc_value"
  appendFileSync :: "nat \<Rightarrow> bool"
  random :: "nat \<Rightarrow> real"
  toISOString :: "TS \<Rightarrow> string"
  serialized :: "tx option \<Rightarrow> string option"

text \<open>
  Calls made to the provider and to the timer, in order, with their arguments. \<open>Sleep x\<close> is
  \<^verbatim>\<open>sleep(x)\<close> for a whole number \<open>x\<close> of milliseconds. \<open>Backoff base k\<close> is
  \<^verbatim>\<open>sleep(base * Math.pow(1.4, k))\<close>: it records the operands of the product. The product
  itself is a double, which the timer cuts to whole milliseconds and replaces by 1 when it
  is above \<open>2^31 - 1\<close>; how long the timer then waits is not part of this model.
\<close>

datatype call = GetTransaction string | Send string | Sleep real | Backoff real nat

text \<open>Lines written to the console.\<close>

datatype log_line =
    QueueFull nat nat
  | PollError exn
  | WriteFailed exn
  | FoundSaved string
  | ErrorFetching exn
  | Printed string

text \<open>The line of a match: \<^verbatim>\<open>`${new Date().toISOString()} | ${h}\n`\<close>.\<close>

definition record_line :: "env \<Rightarrow> TS \<Rightarrow> string \<Rightarrow> string" where
  "record_line e t h = toISOString e t @ '' | '' @ h @ [CHR 0x0A]"


section \<open>fetchhhh.ts: the pipeline\<close>

definition MAX_RETRY :: nat where
  "MAX_RETRY = 6"

definition BASE_BACKOFF :: real where
  "BASE_BACKOFF = 40"

definition POLL_MS :: int where
  "POLL_MS = 2000"

definition SEEN_TTL_MS :: int where
  "SEEN_TTL_MS = 10 * 60 * 1000"

definition SEEN_MAX :: nat where
  "SEEN_MAX = 2000000"

definition SAVED_TTL_MS :: int where
  "SAVED_TTL_MS = 60 * 60 * 1000"

definition SAVED_MAX :: nat where
  "SAVED_MAX = 2000000"

definition MAX_QUEUE :: nat where
  "MAX_QUEUE = 200000"

text \<open>
  The module state: the two sets, the queue \<open>q\<close>, the payloads appended to the output file
  (oldest first), the console, the calls made, and the number of interactions so far.
\<close>

record world =
  seen :: TTLSet
  saved :: TTLSet
  q :: "string list"
  outputFile :: "string list"
  console :: "log_line list"
  calls :: "call list"
  steps :: nat

definition init_world :: world where
  "init_world =
     \<lparr>seen = new_TTLSet SEEN_TTL_MS SEEN_MAX, saved = new_TTLSet SAVED_TTL_MS SAVED_MAX,
      q = [], outputFile = [], console = [], calls = [], steps = 0\<rparr>"

text \<open>
  \<^verbatim>\<open>getTxWithRetry(hash)\<close> from attempt \<open>i\<close> on: a thrown call and a \<^verbatim>\<open>null\<close> reply both lead
  to \<^verbatim>\<open>sleep(BASE_BACKOFF * Math.pow(1.4, i))\<close>; the sleep follows every failed attempt, the
  last one too.
\<close>

function getTxWithRetry_from :: "env \<Rightarrow> world \<Rightarrow> string \<Rightarrow> nat \<Rightarrow> tx option \<times> world" where
  "getTxWithRetry_from e w h i =
     (if i < MAX_RETRY
      then (let w1 = w\<lparr>calls := calls w @ [GetTransaction h], steps := Suc (steps w)\<rparr>
            in case getTransaction e (steps w) h of
                 Inr (Some t) \<Rightarrow> (Some t, w1)
               | _ \<Rightarrow> getTxWithRetry_from e
                        (w1\<lparr>calls := calls w1 @ [Backoff BASE_BACKOFF i]\<rparr>) h (Suc i))
      else (None, w))"
  by pat_completeness auto
termination
  by (relation "measure (\<lambda>(e, w, h, i). MAX_RETRY - i)") auto

declare getTxWithRetry_from.simps [simp del]

definition getTxWithRetry :: "env \<Rightarrow> world \<Rightarrow> string \<Rightarrow> tx option \<times> world" where
  "getTxWithRetry e w h = getTxWithRetry_from e w h 0"

text \<open>
  \<^verbatim>\<open>saveIfMatch(tx)\<close>. The first component of the result is the exception that leaves the
  function, if any; nothing in the function catches the failure of the write.
\<close>

definition saveIfMatch :: "env \<Rightarrow> world \<Rightarrow> tx \<Rightarrow> exn option \<times> world" where
  "saveIfMatch e w t =
     (case map_option toLowerCase (tx_to t) of
        None \<Rightarrow> (None, w)
      | Some to \<Rightarrow>
          if to = [] \<or> to \<noteq> targetAddress then (None, w)
          else (let h = toLowerCase (tx_hash t)
                in case has (clock e) (steps w) (saved w) h of
                     (present, sv, n1) \<Rightarrow>
                       if present then (None, w\<lparr>saved := sv, steps := n1\<rparr>)
                       else (let line = record_line e (clock e n1) h
                             in if appendFileSync e (Suc n1)
                                then (case add (clock e) (Suc (Suc n1)) sv h of
                                        (sv2, n2) \<Rightarrow>
                                          (None, w\<lparr>saved := sv2,
                                                   outputFile := outputFile w @ [line],
                                                   steps := n2\<rparr>))
                                else (Some IOError, w\<lparr>saved := sv, steps := Suc (Suc n1)\<rparr>))))"

text \<open>
  \<^verbatim>\<open>Math.ceil(MAX_QUEUE * 0.01)\<close>; the product is 2000 in double precision as it is here.
\<close>

definition drop_count :: nat where
  "drop_count = nat \<lceil>real MAX_QUEUE * 0.01\<rceil>"

text \<open>
  \<^verbatim>\<open>enqueueMany(hashes)\<close>: the body of the \<^verbatim>\<open>for\<close> loop on one element, and the loop. The
  elements are the strings that \<^verbatim>\<open>listPendingHashes\<close> returns; the empty string is skipped
  by \<^verbatim>\<open>if (!h) continue\<close>.
\<close>

definition enqueueMany_body :: "env \<Rightarrow> world \<Rightarrow> string \<Rightarrow> world" where
  "enqueueMany_body e w raw =
     (let h = toLowerCase raw
      in if h = [] then w
         else (case has (clock e) (steps w) (seen w) h of
                 (present, sn, n1) \<Rightarrow>
                   if present then w\<lparr>seen := sn, steps := n1\<rparr>
                   else (let w1 = w\<lparr>seen := sn, steps := n1\<rparr>;
                             w2 = (if length (q w1) \<ge> MAX_QUEUE
                                   then (let q' = drop drop_count (q w1)
                                         in w1\<lparr>q := q',
                                               console := console w1 @ [QueueFull drop_count (length q')]\<rparr>)
                                   else w1)
                         in case add (clock e) (steps w2) (seen w2) h of
                              (sn2, n2) \<Rightarrow> w2\<lparr>q := q w2 @ [h], seen := sn2, steps := n2\<rparr>)))"

definition enqueueMany :: "env \<Rightarrow> world \<Rightarrow> string list \<Rightarrow> world" where
  "enqueueMany e w hashes = foldl (enqueueMany_body e) w hashes"

text \<open>
  The hashes of a bucket: \<^verbatim>\<open>if (h) out.push(h)\<close> for every sender and nonce; the same test is
  \<^verbatim>\<open>filter(Boolean)\<close> on the legacy arrays.
\<close>

definition truthy_hashes :: "pool_tx list \<Rightarrow> string list" where
  "truthy_hashes ts = concat (map (\<lambda>t. case t of None \<Rightarrow> [] | Some h \<Rightarrow> if h = [] then [] else [h]) ts)"

definition bucket_hashes :: "bucket option \<Rightarrow> string list" where
  "bucket_hashes b =
     (case b of
        None \<Rightarrow> []
      | Some senders \<Rightarrow> concat (map (\<lambda>(from, nonces). truthy_hashes (map snd nonces)) senders))"

text \<open>
  One \<^verbatim>\<open>provider.send(method, [])\<close>: the call is recorded and the interaction counted.
\<close>

definition rpc :: "env \<Rightarrow> world \<Rightarrow> string \<Rightarrow> (exn + rpc_value) \<times> world" where
  "rpc e w method =
     (send e (steps w) method, w\<lparr>calls := calls w @ [Send method], steps := Suc (steps w)\<rparr>)"

text \<open>
  The body of a fallback \<^verbatim>\<open>try\<close>: \<^verbatim>\<open>(arr ?? []).map((tx) => tx?.hash).filter(Boolean)\<close>; an
  object has no \<^verbatim>\<open>map\<close>, which throws inside the \<^verbatim>\<open>try\<close>.
\<close>

definition legacy_hashes :: "exn + rpc_value \<Rightarrow> exn + string list" where
  "legacy_hashes r =
     (case r of
        Inl x \<Rightarrow> Inl x
      | Inr Null \<Rightarrow> Inr []
      | Inr (Txs arr) \<Rightarrow> Inr (truthy_hashes arr)
      | Inr (Content c) \<Rightarrow> Inl TypeError)"

text \<open>
  \<^verbatim>\<open>listPendingHashes()\<close>: \<^verbatim>\<open>txpool_content\<close> first, then the two legacy methods; an array
  or \<^verbatim>\<open>null\<close> answering \<^verbatim>\<open>txpool_content\<close> has no buckets and gives the empty list.
\<close>

definition listPendingHashes :: "env \<Rightarrow> world \<Rightarrow> (exn + string list) \<times> world" where
  "listPendingHashes e w =
     (case rpc e w ''txpool_content'' of
        (Inr (Content c), w1) \<Rightarrow> (Inr (bucket_hashes (pending c) @ bucket_hashes (queued c)), w1)
      | (Inr _, w1) \<Rightarrow> (Inr [], w1)
      | (Inl _, w1) \<Rightarrow>
          (case rpc e w1 ''eth_pendingTransactions'' of
             (r2, w2) \<Rightarrow>
               (case legacy_hashes r2 of
                  Inr hs \<Rightarrow> (Inr hs, w2)
                | Inl _ \<Rightarrow>
                    (case rpc e w2 ''parity_pendingTransactions'' of
                       (r3, w3) \<Rightarrow>
                         (case legacy_hashes r3 of
                            Inr hs \<Rightarrow> (Inr hs, w3)
                          | Inl _ \<Rightarrow> (Inl PendingListError, w3))))))"

text \<open>
  One worker of \<^verbatim>\<open>processQueue()\<close> on the batch, one hash after the other: a hash without
  detail is skipped, an exception of \<^verbatim>\<open>saveIfMatch\<close> rejects. The script starts
  \<^verbatim>\<open>Math.min(CONCURRENCY, N)\<close> workers, which is this one worker for a batch of one hash;
  with more hashes the workers take turns at every \<^verbatim>\<open>await\<close> and those left go on after one
  has rejected, which this definition does not describe.
\<close>

fun workers :: "env \<Rightarrow> world \<Rightarrow> string list \<Rightarrow> exn option \<times> world" where
  "workers e w [] = (None, w)"
| "workers e w (h # batch) =
     (case getTxWithRetry e w h of
        (None, w1) \<Rightarrow> workers e w1 batch
      | (Some t, w1) \<Rightarrow>
          (case saveIfMatch e w1 t of
             (Some x, w2) \<Rightarrow> (Some x, w2)
           | (None, w2) \<Rightarrow> workers e w2 batch))"

definition processQueue :: "env \<Rightarrow> world \<Rightarrow> exn option \<times> world" where
  "processQueue e w =
     (if q w = [] then (None, w)
      else (let N = min (length (q w)) MAX_QUEUE
            in case workers e w (take N (q w)) of
                 (Some x, w1) \<Rightarrow> (Some x, w1)
               | (None, w1) \<Rightarrow> (None, w1\<lparr>q := drop N (q w1)\<rparr>)))"

text \<open>The \<^verbatim>\<open>try\<close> block of \<^verbatim>\<open>loop()\<close>.\<close>

definition poll :: "env \<Rightarrow> world \<Rightarrow> exn option \<times> world" where
  "poll e w =
     (case listPendingHashes e w of
        (Inl x, w1) \<Rightarrow> (Some x, w1)
      | (Inr list, w1) \<Rightarrow>
          (case processQueue e (if list \<noteq> [] then enqueueMany e w1 list else w1) of
             (Some x, w2) \<Rightarrow> (Some x, w2)
           | (None, w2) \<Rightarrow>
               (let w3 = w2\<lparr>steps := Suc (steps w2)\<rparr>
                in if random e (steps w2) < 0.1
                   then (case cleanup (clock e) (steps w3) (seen w3) of
                           (sn, n1) \<Rightarrow>
                             (case cleanup (clock e) n1 (saved w3) of
                                (sv, n2) \<Rightarrow> (None, w3\<lparr>seen := sn, saved := sv, steps := n2\<rparr>)))
                   else (None, w3))))"

text \<open>One turn of \<^verbatim>\<open>for (;;)\<close> in \<^verbatim>\<open>loop()\<close>, and \<open>k\<close> turns.\<close>

definition loop_body :: "env \<Rightarrow> world \<Rightarrow> world" where
  "loop_body e w =
     (let t0 = clock e (steps w);
          w0 = w\<lparr>steps := Suc (steps w)\<rparr>;
          w1 = (case poll e w0 of
                  (Some x, w') \<Rightarrow> w'\<lparr>console := console w' @ [PollError x]\<rparr>
                | (None, w') \<Rightarrow> w');
          dt = clock e (steps w1) - t0;
          w2 = w1\<lparr>steps := Suc (steps w1)\<rparr>
      in if dt < POLL_MS then w2\<lparr>calls := calls w2 @ [Sleep (real_of_int (POLL_MS - dt))]\<rparr> else w2)"

fun loop :: "nat \<Rightarrow> env \<Rightarrow> world \<Rightarrow> world" where
  "loop 0 e w = w"
| "loop (Suc k) e w = loop k e (loop_body e w)"






section \<open>id.ts\<close>

definition id_MAX_RETRY :: nat where
  "id_MAX_RETRY = 100"

definition BASE_BACKOFF_MS :: real where
  "BASE_BACKOFF_MS = 50"

text \<open>
  The module state of \<^verbatim>\<open>id.ts\<close>: \<^verbatim>\<open>seen\<close> and \<^verbatim>\<open>saved\<close> are plain sets here.
\<close>

record id_world =
  id_q :: "string list"
  id_seen :: "string set"
  id_saved :: "string set"
  id_outputFile :: "string list"
  id_console :: "log_line list"
  id_calls :: "call list"
  id_steps :: nat

text \<open>\<^verbatim>\<open>enqueue(hash)\<close>; the argument is \<open>None\<close> when it is not a string.\<close>

definition enqueue :: "id_world \<Rightarrow> string option \<Rightarrow> id_world" where
  "enqueue w arg =
     (case arg of
        None \<Rightarrow> w
      | Some raw \<Rightarrow>
          if raw = [] then w
          else (let hash = toLowerCase raw
                in if hash \<notin> id_seen w
                   then w\<lparr>id_seen := insert hash (id_seen w), id_q := id_q w @ [hash]\<rparr>
                   else w))"

text \<open>
  \<^verbatim>\<open>fetchTxWithRetry(hash)\<close> with the loop variable \<open>attempt\<close>: it is incremented before the
  delay \<^verbatim>\<open>BASE_BACKOFF_MS * Math.pow(1.4, attempt)\<close> is computed.
\<close>

function fetchTxWithRetry_from :: "env \<Rightarrow> id_world \<Rightarrow> string \<Rightarrow> nat \<Rightarrow> tx option \<times> id_world" where
  "fetchTxWithRetry_from e w h attempt =
     (if attempt < id_MAX_RETRY
      then (let w1 = w\<lparr>id_calls := id_calls w @ [GetTransaction h], id_steps := Suc (id_steps w)\<rparr>
            in case getTransaction e (id_steps w) h of
                 Inr (Some t) \<Rightarrow> (Some t, w1)
               | _ \<Rightarrow> fetchTxWithRetry_from e
                        (w1\<lparr>id_calls := id_calls w1 @ [Backoff BASE_BACKOFF_MS (Suc attempt)]\<rparr>)
                        h (Suc attempt))
      else (None, w))"
  by pat_completeness auto
termination
  by (relation "measure (\<lambda>(e, w, h, attempt). id_MAX_RETRY - attempt)") auto

declare fetchTxWithRetry_from.simps [simp del]

definition fetchTxWithRetry :: "env \<Rightarrow> id_world \<Rightarrow> string \<Rightarrow> tx option \<times> id_world" where
  "fetchTxWithRetry e w h = fetchTxWithRetry_from e w h 0"

text \<open>
  \<^verbatim>\<open>saveIfMatch(tx)\<close> of \<^verbatim>\<open>id.ts\<close>: the body is inside \<^verbatim>\<open>try\<close>, the failed write is reported on
  the console and the function returns.
\<close>

definition id_saveIfMatch :: "env \<Rightarrow> id_world \<Rightarrow> tx \<Rightarrow> exn option \<times> id_world" where
  "id_saveIfMatch e w t =
     (case map_option toLowerCase (tx_to t) of
        None \<Rightarrow> (None, w)
      | Some to \<Rightarrow>
          if to \<noteq> [] \<and> to = targetAddress
          then (let h = toLowerCase (tx_hash t)
                in if h \<in> id_saved w then (None, w)
                   else (let line = record_line e (clock e (id_steps w)) h
                         in if appendFileSync e (Suc (id_steps w))
                            then (None, w\<lparr>id_saved := insert h (id_saved w),
                                          id_outputFile := id_outputFile w @ [line],
                                          id_console := id_console w @ [FoundSaved h],
                                          id_steps := Suc (Suc (id_steps w))\<rparr>)
                            else (None, w\<lparr>id_console := id_console w @ [WriteFailed IOError],
                                          id_steps := Suc (Suc (id_steps w))\<rparr>)))
          else (None, w))"



section \<open>index.js\<close>

text \<open>
  The state of \<^verbatim>\<open>index.js\<close> is the output file and the console; its handler of the
  \<^verbatim>\<open>pending\<close> event writes the hash as the event delivered it.
\<close>

record js_world =
  js_outputFile :: "string list"
  js_console :: "log_line list"
  js_calls :: "call list"
  js_steps :: nat

definition on_pending :: "env \<Rightarrow> js_world \<Rightarrow> string \<Rightarrow> js_world" where
  "on_pending e w txHash =
     (let w1 = w\<lparr>js_calls := js_calls w @ [GetTransaction txHash], js_steps := Suc (js_steps w)\<rparr>
      in case getTransaction e (js_steps w) txHash of
           Inl x \<Rightarrow> w1\<lparr>js_console := js_console w1 @ [ErrorFetching x]\<rparr>
         | Inr r \<Rightarrow>
             (case serialized e r of
                None \<Rightarrow> w1\<lparr>js_console := js_console w1 @ [ErrorFetching TypeError]\<rparr>
              | Some raw \<Rightarrow>
                  (let w2 = w1\<lparr>js_console := js_console w1 @ [Printed raw]\<rparr>
                   in case r of
                        None \<Rightarrow> w2
                      | Some t \<Rightarrow>
                          (case tx_to t of
                             None \<Rightarrow> w2
                           | Some to \<Rightarrow>
                               if to \<noteq> [] \<and> toLowerCase to = targetAddress
                               then (let logData = record_line e (clock e (js_steps w2)) txHash
                                     in if appendFileSync e (Suc (js_steps w2))
                                        then w2\<lparr>js_outputFile := js_outputFile w2 @ [logData],
                                                js_console := js_console w2 @ [FoundSaved (tx_hash t)],
                                                js_steps := Suc (Suc (js_steps w2))\<rparr>
                                        else w2\<lparr>js_console := js_console w2 @ [ErrorFetching IOError],
                                                js_steps := Suc (Suc (js_steps w2))\<rparr>)
                               else w2))))"


section \<open>The eviction policy, as stated\<close>

text \<open>
  What the eviction policy is said to leave: \<open>unexpired\<close> keeps the entries whose expiry has
  not passed, and \<open>cleanup_policy\<close> then drops the excess over \<open>mx\<close> entries from the front
  of the expiry-ascending order.
\<close>

definition unexpired :: "TS \<Rightarrow> (string \<times> TS) list \<Rightarrow> (string \<times> TS) list" where
  "unexpired now mp = filter (\<lambda>e. \<not> snd e < now) mp"

definition cleanup_policy :: "TS \<Rightarrow> nat \<Rightarrow> (string \<times> TS) list \<Rightarrow> (string \<times> TS) list" where
  "cleanup_policy now mx mp =
     (let lv = unexpired now mp
      in filter (\<lambda>e. e \<notin> set (take (length lv - mx) (sort_key snd lv))) lv)"


section \<open>Invariants\<close>

text \<open>
  What holds of a set built by \<^verbatim>\<open>add\<close>, \<^verbatim>\<open>has\<close> and \<^verbatim>\<open>cleanup\<close> when the clock does not go
  back: the keys are those of a map, the size is within the bound, and no entry expires
  later than an entry added at the last read.
\<close>

definition TTLSet_inv :: "clock \<Rightarrow> nat \<Rightarrow> TTLSet \<Rightarrow> bool" where
  "TTLSet_inv clk n s \<longleftrightarrow>
     distinct (map fst (m s)) \<and> length (m s) \<le> max_size s \<and>
     list_all (\<lambda>x. snd x \<le> clk n + ttl s) (m s)"


text \<open>The length of the queue after one accepted hash, from its length before.\<close>

definition push_len :: "nat \<Rightarrow> nat" where
  "push_len l = (if l \<ge> MAX_QUEUE then l - drop_count else l) + 1"

text \<open>
  Hashes that the \<^verbatim>\<open>seen\<close> set has never held: non-empty, pairwise different in lower case,
  and none of them a key of the set.
\<close>

definition fresh :: "world \<Rightarrow> string list \<Rightarrow> bool" where
  "fresh w hs \<longleftrightarrow>
     distinct (map toLowerCase hs) \<and> [] \<notin> toLowerCase ` set hs \<and>
     toLowerCase ` set hs \<inter> fst ` set (m (seen w)) = {}"




text \<open>
  The calls of a fetch that never yields: \<open>n\<close> attempts for \<open>h\<close>, each followed by the sleep
  \<open>Backoff base k\<close>, the exponent \<open>k\<close> counting up from \<open>first\<close>.
\<close>

definition retry_trace :: "string \<Rightarrow> real \<Rightarrow> nat \<Rightarrow> nat \<Rightarrow> call list" where
  "retry_trace h base first n =
     concat (map (\<lambda>i. [GetTransaction h, Backoff base (first + i)]) [0..<n])"


section \<open>Example inputs\<close>

text \<open>A clock that reads the insertion time, the expiry instant, and one millisecond later.\<close>

definition boundary_clock :: clock where
  "boundary_clock i = (if i = 0 then 1000 else if i = 1 then 1000 + SEEN_TTL_MS else 1001 + SEEN_TTL_MS)"

text \<open>A set over its bound, with one expired entry at time 10.\<close>

definition example_set :: TTLSet where
  "example_set = \<lparr>m = [(''a'', 5), (''b'', 30), (''c'', 20), (''d'', 40)], ttl = 10, max_size = 2, addCount = 0\<rparr>"

text \<open>
  A transaction to the target address, the same transaction as another source reports it,
  and an environment in which every fetch yields it and every write succeeds.
\<close>

definition example_tx :: tx where
  "example_tx = \<lparr>tx_to = Some ''0x66a9893cC07D91D95644AEDD05D03f95e1dBA8Af'', tx_hash = ''0xAA''\<rparr>"


definition example_env :: env where
  "example_env =
     \<lparr>clock = (\<lambda>i. 1000 + int i),
      getTransaction = (\<lambda>i h. Inr (Some example_tx)),
      send = (\<lambda>i method. Inl RpcError),
      appendFileSync = (\<lambda>i. True),
      random = (\<lambda>i. 1 / 2),
      toISOString = (\<lambda>t. ''2026-11-03T00:00:00.000Z''),
      serialized = (\<lambda>r. Some ''0x'')\<rparr>"

text \<open>An environment whose provider never has the detail and rejects every other call.\<close>

definition dead_env :: env where
  "dead_env =
     \<lparr>clock = (\<lambda>i. 1000 + int i),
      getTransaction = (\<lambda>i h. if even i then Inr None else Inl RpcError),
      send = (\<lambda>i method. Inl RpcError),
      appendFileSync = (\<lambda>i. False),
      random = (\<lambda>i. 1 / 2),
      toISOString = (\<lambda>t. ''2026-11-03T00:00:00.000Z''),
      serialized = (\<lambda>r. None)\<rparr>"

text \<open>
  A provider without \<^verbatim>\<open>txpool_content\<close>: \<^verbatim>\<open>eth_pendingTransactions\<close> answers only at
  interaction 1, \<^verbatim>\<open>parity_pendingTransactions\<close> always.
\<close>

definition legacy_env :: env where
  "legacy_env =
     \<lparr>clock = (\<lambda>i. 1000 + int i),
      getTransaction = (\<lambda>i h. Inr None),
      send = (\<lambda>i method.
               if method = ''eth_pendingTransactions'' \<and> i = 1 then Inr (Txs [Some ''0xAA'', None])
               else if method = ''parity_pendingTransactions'' then Inr (Txs [Some [], Some ''0xBB''])
               else Inl RpcError),
      appendFileSync = (\<lambda>i. True),
      random = (\<lambda>i. 1 / 2),
      toISOString = (\<lambda>t. ''2026-11-03T00:00:00.000Z''),
      serialized = (\<lambda>r. Some ''0x'')\<rparr>"

text \<open>
  A node that lists and resolves one transaction to the target address, and a file system
  whose writes fail before interaction 10.
\<close>

definition flaky_env :: env where
  "flaky_env =
     \<lparr>clock = (\<lambda>i. 1000 + int i),
      getTransaction = (\<lambda>i h. Inr (Some example_tx)),
      send = (\<lambda>i method.
               if method = ''txpool_content''
               then Inr (Content \<lparr>pending = Some [(''0xf00'', [(''7'', Some ''0xAA'')])], queued = None\<rparr>)
               else Inl RpcError),
      appendFileSync = (\<lambda>i. 10 \<le> i),
      random = (\<lambda>i. 1 / 2),
      toISOString = (\<lambda>t. ''2026-11-03T00:00:00.000Z''),
      serialized = (\<lambda>r. Some ''0x'')\<rparr>"









text \<open>The initial states of the two other scripts.\<close>

definition id_init_world :: id_world where
  "id_init_world =
     \<lparr>id_q = [], id_seen = {}, id_saved = {}, id_outputFile = [], id_console = [],
      id_calls = [], id_steps = 0\<rparr>"

definition js_init_world :: js_world where
  "js_init_world = \<lparr>js_outputFile = [], js_console = [], js_calls = [], js_steps = 0\<rparr>"

text \<open>
  A run that fills the queue: from the initial state, \<open>MAX_QUEUE\<close> different hashes in one
  call; and the next \<open>n\<close> hashes of the family.
\<close>

definition full_world :: world where
  "full_world = enqueueMany example_env init_world (map hash_of [0..<MAX_QUEUE])"

definition next_batch :: "nat \<Rightarrow> string list" where
  "next_batch n = map hash_of [MAX_QUEUE..<MAX_QUEUE + n]"

text \<open>
  The run of \<^verbatim>\<open>loop()\<close> from the initial state in this environment, after one turn and
  after two.
\<close>

definition after_first_turn :: world where
  "after_first_turn =
     \<lparr>seen = \<lparr>m = [(''0xaa'', 601002)], ttl = SEEN_TTL_MS, max_size = SEEN_MAX, addCount = 1\<rparr>,
      saved = new_TTLSet SAVED_TTL_MS SAVED_MAX,
      q = [''0xaa''], outputFile = [], console = [PollError IOError],
      calls = [Send ''txpool_content'', GetTransaction ''0xaa'', Sleep 1994],
      steps = 7\<rparr>"

definition after_second_turn :: world where
  "after_second_turn =
     \<lparr>seen = \<lparr>m = [(''0xaa'', 601002)], ttl = SEEN_TTL_MS, max_size = SEEN_MAX, addCount = 1\<rparr>,
      saved = \<lparr>m = [(''0xaa'', 3601013)], ttl = SAVED_TTL_MS, max_size = SAVED_MAX, addCount = 1\<rparr>,
      q = [], outputFile = [record_line flaky_env 1011 ''0xaa''], console = [PollError IOError],
      calls = [Send ''txpool_content'', GetTransaction ''0xaa'', Sleep 1994,
               Send ''txpool_content'', GetTransaction ''0xaa'', Sleep 1992],
      steps = 16\<rparr>"

section \<open>Properties of the TTL set\<close>


lemma sweep_filter_keys:
  "sweep now es mp = filter (\<lambda>e. \<not> (\<exists>x \<in> set es. fst x = fst e \<and> snd x < now)) mp"
proof (induction es arbitrary: mp)
  case Nil
  then show ?case by simp
next
  case (Cons e es)
  obtain k ex where e: "e = (k, ex)" by (cases e)
  show ?case
    unfolding e sweep.simps Cons.IH
    by (cases "ex < now") (auto simp: AList.delete_eq case_prod_beta intro!: filter_cong)
qed

lemma trim_filter_keys:
  "toRemove \<le> length arr \<Longrightarrow>
   trim arr toRemove i mp = filter (\<lambda>e. fst e \<notin> fst ` set (drop i (take toRemove arr))) mp"
proof (induction arr toRemove i mp rule: trim.induct)
  case (1 arr toRemove i mp)
  show ?case
  proof (cases "i < toRemove")
    case False
    then show ?thesis by (simp add: trim.simps)
  next
    case True
    then have "i < length (take toRemove arr)" using 1(2) by simp
    then have dr: "drop i (take toRemove arr) = (arr ! i) # drop (Suc i) (take toRemove arr)"
      using True by (metis Cons_nth_drop_Suc nth_take)
    show ?thesis
      using True 1 
      apply (subst trim.simps)
      apply (simp add: dr)
      by (auto simp: AList.delete_eq case_prod_beta intro!: filter_cong)
  qed
qed

lemma sweep_unexpired:
  assumes "distinct (map fst mp)"
  shows "sweep now mp mp = unexpired now mp"
proof -
  have "\<And>e. e \<in> set mp \<Longrightarrow> (\<exists>x \<in> set mp. fst x = fst e \<and> snd x < now) = (snd e < now)"
    using assms by (metis eq_key_imp_eq_value prod.collapse)
  then show ?thesis
    unfolding sweep_filter_keys unexpired_def by (intro filter_cong) auto
qed

lemma sweep_distinct: "distinct (map fst mp) \<Longrightarrow> distinct (map fst (sweep now es mp))"
  by (simp add: sweep_filter_keys distinct_map_filter)

lemma sweep_subset: "set (sweep now es mp) \<subseteq> set mp"
  by (simp add: sweep_filter_keys)

lemma sweep_length: "length (sweep now es mp) \<le> length mp"
  by (simp add: sweep_filter_keys)

lemma trim_entries:
  assumes d: "distinct (map fst mp)" and r: "r \<le> length mp"
  shows "trim (sort_key snd mp) r 0 mp = filter (\<lambda>e. e \<notin> set (take r (sort_key snd mp))) mp"
proof -
  let ?arr = "sort_key snd mp"
  have sub: "set (take r ?arr) \<subseteq> set mp"
    using set_take_subset [of r ?arr] by simp
  have "\<And>e. e \<in> set mp \<Longrightarrow> (fst e \<in> fst ` set (take r ?arr)) = (e \<in> set (take r ?arr))"
  proof -
    fix e assume e: "e \<in> set mp"
    show "(fst e \<in> fst ` set (take r ?arr)) = (e \<in> set (take r ?arr))"
    proof
      assume "fst e \<in> fst ` set (take r ?arr)"
      then obtain x where x: "x \<in> set (take r ?arr)" "fst x = fst e" by auto
      with sub have "x \<in> set mp" by auto
      with d e x(2) have "x = e" by (metis eq_key_imp_eq_value prod.collapse)
      with x show "e \<in> set (take r ?arr)" by simp
    qed auto
  qed
  then show ?thesis
    using r by (simp add: trim_filter_keys cong: filter_cong)
qed

lemma trim_length_le:
  assumes r: "r \<le> length mp"
  shows "length (trim (sort_key snd mp) r 0 mp) \<le> length mp - r"
proof -
  let ?arr = "sort_key snd mp"
  let ?K = "fst ` set (take r ?arr)"
  let ?Q = "\<lambda>e. fst e \<in> ?K"
  have "length (filter ?Q (take r ?arr)) = r"
  proof -
    have "filter ?Q (take r ?arr) = take r ?arr" by (rule filter_True) auto
    then show ?thesis using r by simp
  qed
  moreover have "length (filter ?Q (take r ?arr)) \<le> length (filter ?Q ?arr)"
  proof -
    have "filter ?Q ?arr = filter ?Q (take r ?arr) @ filter ?Q (drop r ?arr)"
      by (metis append_take_drop_id filter_append)
    then show ?thesis by simp
  qed
  moreover have "length (filter ?Q ?arr) = length (filter ?Q mp)"
    by (simp add: filter_sort)
  ultimately have "r \<le> length (filter ?Q mp)" by linarith
  moreover have "length mp = length (filter ?Q mp) + length (filter (\<lambda>e. \<not> ?Q e) mp)"
    by (rule sum_length_filter_compl [symmetric])
  ultimately have "length (filter (\<lambda>e. \<not> ?Q e) mp) \<le> length mp - r" by linarith
  moreover have "trim ?arr r 0 mp = filter (\<lambda>e. \<not> ?Q e) mp"
    using r by (subst trim_filter_keys) simp_all
  ultimately show ?thesis by (simp only:)
qed

lemma trim_length_eq:
  assumes d: "distinct (map fst mp)" and r: "r \<le> length mp"
  shows "length (trim (sort_key snd mp) r 0 mp) = length mp - r"
proof -
  let ?arr = "sort_key snd mp"
  have dm: "distinct mp" using d by (simp add: distinct_map)
  then have da: "distinct (take r ?arr)" by simp
  have sub: "set (take r ?arr) \<subseteq> set mp"
    using set_take_subset [of r ?arr] by simp
  have "length (filter (\<lambda>e. e \<notin> set (take r ?arr)) mp) = card (set mp - set (take r ?arr))"
  proof -
    have "set (filter (\<lambda>e. e \<notin> set (take r ?arr)) mp) = set mp - set (take r ?arr)" by auto
    moreover have "distinct (filter (\<lambda>e. e \<notin> set (take r ?arr)) mp)" using dm by simp
    ultimately show ?thesis by (metis distinct_card)
  qed
  also have "\<dots> = card (set mp) - card (set (take r ?arr))"
    using sub by (simp add: card_Diff_subset)
  also have "\<dots> = length mp - r"
    using dm da r by (simp add: distinct_card)
  finally show ?thesis using d r by (simp add: trim_entries)
qed

lemma cleanup_size_le: "length (m (fst (cleanup clk n s))) \<le> max_size s"
proof -
  let ?mp1 = "sweep (clk n) (m s) (m s)"
  show ?thesis
  proof (cases "length ?mp1 > max_size s")
    case True
    have "length (trim (sort_key snd ?mp1) (length ?mp1 - max_size s) 0 ?mp1)
          \<le> length ?mp1 - (length ?mp1 - max_size s)"
      by (rule trim_length_le) simp
    with True show ?thesis by (simp add: cleanup_def Let_def)
  next
    case False
    then show ?thesis by (simp add: cleanup_def Let_def)
  qed
qed

lemma cleanup_fields:
  "ttl (fst (cleanup clk n s)) = ttl s"
  "max_size (fst (cleanup clk n s)) = max_size s"
  "addCount (fst (cleanup clk n s)) = addCount s"
  "snd (cleanup clk n s) = Suc n"
  by (simp_all add: cleanup_def Let_def)

lemma cleanup_entries:
  assumes d: "distinct (map fst (m s))"
  shows "m (fst (cleanup clk n s)) =
          filter (\<lambda>e. e \<notin> set (take (length (unexpired (clk n) (m s)) - max_size s)
                                     (sort_key snd (unexpired (clk n) (m s)))))
                 (unexpired (clk n) (m s))"
proof -
  let ?lv = "unexpired (clk n) (m s)"
  have sw: "sweep (clk n) (m s) (m s) = ?lv" using d by (rule sweep_unexpired)
  have dl: "distinct (map fst ?lv)" using d by (simp add: unexpired_def distinct_map_filter)
  show ?thesis
  proof (cases "length ?lv > max_size s")
    case True
    have "trim (sort_key snd ?lv) (length ?lv - max_size s) 0 ?lv
          = filter (\<lambda>e. e \<notin> set (take (length ?lv - max_size s) (sort_key snd ?lv))) ?lv"
      using dl by (rule trim_entries) simp
    with True sw show ?thesis by (simp add: cleanup_def Let_def)
  next
    case False
    with sw show ?thesis by (simp add: cleanup_def Let_def)
  qed
qed

lemma cleanup_size_eq:
  assumes d: "distinct (map fst (m s))"
  shows "length (m (fst (cleanup clk n s))) = min (length (unexpired (clk n) (m s))) (max_size s)"
proof -
  let ?lv = "unexpired (clk n) (m s)"
  have sw: "sweep (clk n) (m s) (m s) = ?lv" using d by (rule sweep_unexpired)
  have dl: "distinct (map fst ?lv)" using d by (simp add: unexpired_def distinct_map_filter)
  show ?thesis
  proof (cases "length ?lv > max_size s")
    case True
    have "length (trim (sort_key snd ?lv) (length ?lv - max_size s) 0 ?lv)
          = length ?lv - (length ?lv - max_size s)"
      using dl by (rule trim_length_eq) simp
    with True sw show ?thesis by (simp add: cleanup_def Let_def)
  next
    case False
    with sw show ?thesis by (simp add: cleanup_def Let_def)
  qed
qed

lemma add_size_le: "length (m (fst (add clk n s k))) \<le> max_size s"
proof -
  let ?s1 = "s\<lparr>m := AList.update k (clk n + ttl s) (m s), addCount := Suc (addCount s)\<rparr>"
  show ?thesis
  proof (cases "addCount ?s1 mod CLEAN_EVERY = 0 \<or> length (m ?s1) > max_size ?s1")
    case True
    then have "add clk n s k = cleanup clk (Suc n) ?s1" by (simp add: add_def Let_def)
    then show ?thesis using cleanup_size_le [of clk "Suc n" ?s1] by simp
  next
    case False
    then show ?thesis by (simp add: add_def Let_def)
  qed
qed


lemma update_new: "k \<notin> fst ` set al \<Longrightarrow> AList.update k v al = al @ [(k, v)]"
  by (induction al) auto

lemma update_old_length: "k \<in> fst ` set al \<Longrightarrow> length (AList.update k v al) = length al"
  by (induction al) auto


lemma update_map_of: "map_of (AList.update k v al) k = Some v"
  by (simp add: update_conv')

lemma insort_key_snoc:
  "f x \<le> f y \<Longrightarrow> insort_key f x (ys @ [y]) = insort_key f x ys @ [y]"
  by (induction ys) auto

lemma sort_key_snoc:
  "\<forall>x \<in> set xs. f x \<le> f y \<Longrightarrow> sort_key f (xs @ [y]) = sort_key f xs @ [y]"
  by (induction xs) (auto simp: insort_key_snoc)

lemma cleanup_policy_keeps_newest:
  assumes d: "distinct (map fst (al @ [(k, v)]))"
    and le: "\<forall>x \<in> set al. snd x \<le> v"
    and live: "\<not> v < now"
    and sz: "length al \<le> mx" and mx: "1 \<le> mx"
  shows "(k, v) \<in> set (cleanup_policy now mx (al @ [(k, v)]))"
proof -
  let ?lv = "unexpired now (al @ [(k, v)])"
  let ?al' = "unexpired now al"
  have lv: "?lv = ?al' @ [(k, v)]" using live by (simp add: unexpired_def)
  have len: "length ?al' \<le> mx" using sz by (simp add: unexpired_def) (meson le_trans length_filter_le)
  have srt: "sort_key snd ?lv = sort_key snd ?al' @ [(k, v)]"
    unfolding lv using le by (intro sort_key_snoc) (auto simp: unexpired_def)
  have "(k, v) \<notin> set al" using d by (force simp: image_iff)
  then have notin: "(k, v) \<notin> set ?al'" by (simp add: unexpired_def)
  have "length ?lv - mx \<le> length (sort_key snd ?al')"
    using len mx by (simp add: lv)
  then have "take (length ?lv - mx) (sort_key snd ?lv) = take (length ?lv - mx) (sort_key snd ?al')"
    unfolding srt by simp
  then have "set (take (length ?lv - mx) (sort_key snd ?lv)) \<subseteq> set ?al'"
    using set_take_subset [of "length ?lv - mx" "sort_key snd ?al'"] by simp
  with notin have "(k, v) \<notin> set (take (length ?lv - mx) (sort_key snd ?lv))" by auto
  moreover have "(k, v) \<in> set ?lv" by (simp add: lv)
  ultimately show ?thesis by (simp add: cleanup_policy_def Let_def)
qed

lemma cleanup_policy_keeps_within:
  assumes "length al \<le> mx"
  shows "cleanup_policy now mx al = unexpired now al"
proof -
  have "length (unexpired now al) \<le> mx"
    using assms by (simp add: unexpired_def) (meson le_trans length_filter_le)
  then show ?thesis by (simp add: cleanup_policy_def Let_def)
qed

lemma cleanup_m:
  "distinct (map fst (m s)) \<Longrightarrow> m (fst (cleanup clk n s)) = cleanup_policy (clk n) (max_size s) (m s)"
  by (simp add: cleanup_entries cleanup_policy_def Let_def)

lemma add_keeps:
  assumes inv: "TTLSet_inv clk n s" and mx: "1 \<le> max_size s"
    and now: "clk (Suc n) \<le> clk n + ttl s"
  shows "map_of (m (fst (add clk n s h))) h = Some (clk n + ttl s)"
proof -
  let ?v = "clk n + ttl s"
  let ?al = "AList.update h ?v (m s)"
  let ?s1 = "s\<lparr>m := ?al, addCount := Suc (addCount s)\<rparr>"
  have d: "distinct (map fst (m s))" and sz: "length (m s) \<le> max_size s"
    and le: "\<forall>x \<in> set (m s). snd x \<le> ?v"
    using inv by (simp_all add: TTLSet_inv_def list_all_iff)
  have d1: "distinct (map fst ?al)" using d by (rule distinct_update)
  have mo: "map_of ?al h = Some ?v" by (rule update_map_of)
  then have mem: "(h, ?v) \<in> set ?al" by (rule map_of_SomeD)
  show ?thesis
  proof (cases "addCount ?s1 mod CLEAN_EVERY = 0 \<or> length (m ?s1) > max_size ?s1")
    case False
    then show ?thesis using mo by (simp add: add_def Let_def)
  next
    case True
    then have eq: "m (fst (add clk n s h)) = cleanup_policy (clk (Suc n)) (max_size s) ?al"
      using cleanup_m [of ?s1 clk "Suc n"] d1 by (simp add: add_def Let_def)
    have "(h, ?v) \<in> set (cleanup_policy (clk (Suc n)) (max_size s) ?al)"
    proof (cases "h \<in> fst ` set (m s)")
      case True
      then have "length ?al \<le> max_size s" using sz by (simp add: update_old_length)
      then have "cleanup_policy (clk (Suc n)) (max_size s) ?al = unexpired (clk (Suc n)) ?al"
        by (rule cleanup_policy_keeps_within)
      then show ?thesis using mem now by (simp add: unexpired_def)
    next
      case False
      then have al: "?al = m s @ [(h, ?v)]" by (rule update_new)
      show ?thesis
        unfolding al
        by (rule cleanup_policy_keeps_newest) (use d1 al le now sz mx in auto)
    qed
    moreover have "distinct (map fst (cleanup_policy (clk (Suc n)) (max_size s) ?al))"
      using d1 by (simp add: cleanup_policy_def Let_def unexpired_def distinct_map_filter)
    ultimately show ?thesis unfolding eq by (simp add: map_of_eq_Some_iff)
  qed
qed

lemma has_fst:
  "map_of (m s) k = Some t \<Longrightarrow> fst (has clk j s k) = (clk j \<le> t)"
  by (auto simp: has_def)

text \<open>
  C4, as the code has it. In a set that satisfies the invariant and whose maximum is at
  least one, a hash added at time \<open>t0\<close> (the clock not passing \<open>t0 + ttl\<close> before \<^verbatim>\<open>add\<close>
  returns) is reported present by the next query exactly when the query time is at most
  \<open>t0 + ttl\<close>: true up to and including the expiry instant, false strictly after it, with
  no \<^verbatim>\<open>cleanup()\<close> in between.
\<close>

theorem has_after_add:
  assumes "TTLSet_inv clk n s" and "1 \<le> max_size s" and "clk (Suc n) \<le> clk n + ttl s"
  shows "fst (has clk j (fst (add clk n s h)) h) = (clk j \<le> clk n + ttl s)"
  using add_keeps [OF assms] by (rule has_fst)

lemma update_set_subset: "set (AList.update k v al) \<subseteq> insert (k, v) (set al)"
  by (induction al) auto

lemma inv_new: "TTLSet_inv clk n (new_TTLSet t mx)"
  by (simp add: TTLSet_inv_def new_TTLSet_def)

lemma inv_later: "TTLSet_inv clk n s \<Longrightarrow> clk n \<le> clk n' \<Longrightarrow> TTLSet_inv clk n' s"
  by (fastforce simp: TTLSet_inv_def list_all_iff)

lemma inv_sub:
  assumes "TTLSet_inv clk n s" and "m s' = filter P (m s)" and "ttl s' = ttl s" and "max_size s' = max_size s"
  shows "TTLSet_inv clk n s'"
proof -
  have "length (filter P (m s)) \<le> max_size s"
    using assms(1) by (meson TTLSet_inv_def le_trans length_filter_le)
  then show ?thesis
    using assms by (simp add: TTLSet_inv_def list_all_iff distinct_map_filter)
qed

lemma has_m:
  "m (fst (snd (has clk n s k))) = m s \<or> m (fst (snd (has clk n s k))) = AList.delete k (m s)"
  by (simp add: has_def split: option.splits)

lemma has_fields:
  "ttl (fst (snd (has clk n s k))) = ttl s"
  "max_size (fst (snd (has clk n s k))) = max_size s"
  "addCount (fst (snd (has clk n s k))) = addCount s"
  by (simp_all add: has_def split: option.splits)

lemma inv_has: "TTLSet_inv clk n s \<Longrightarrow> TTLSet_inv clk n (fst (snd (has clk j s k)))"
  using has_m [of clk j s k]
  by (auto simp: AList.delete_eq has_fields intro: inv_sub [where P = "\<lambda>x. True"] inv_sub)

lemma inv_cleanup: "TTLSet_inv clk n s \<Longrightarrow> TTLSet_inv clk n (fst (cleanup clk j s))"
proof -
  assume inv: "TTLSet_inv clk n s"
  then have d: "distinct (map fst (m s))" by (simp add: TTLSet_inv_def)
  have "m (fst (cleanup clk j s)) =
        filter (\<lambda>e. \<not> snd e < clk j \<and> e \<notin> set (take (length (unexpired (clk j) (m s)) - max_size s)
                      (sort_key snd (unexpired (clk j) (m s))))) (m s)"
    using d by (simp add: cleanup_m cleanup_policy_def Let_def unexpired_def)
  with inv show ?thesis by (rule inv_sub) (simp_all add: cleanup_fields)
qed

lemma add_fields:
  "ttl (fst (add clk n s k)) = ttl s"
  "max_size (fst (add clk n s k)) = max_size s"
  "addCount (fst (add clk n s k)) = Suc (addCount s)"
  by (simp_all add: add_def Let_def cleanup_fields)

lemma inv_add:
  assumes "TTLSet_inv clk n s"
  shows "TTLSet_inv clk n (fst (add clk n s k))"
proof -
  let ?al = "AList.update k (clk n + ttl s) (m s)"
  let ?s1 = "s\<lparr>m := ?al, addCount := Suc (addCount s)\<rparr>"
  have d: "distinct (map fst ?al)" using assms by (simp add: TTLSet_inv_def distinct_update)
  have "set ?al \<subseteq> insert (k, clk n + ttl s) (set (m s))"
    by (rule update_set_subset)
  then have le: "list_all (\<lambda>x. snd x \<le> clk n + ttl s) ?al"
    using assms by (auto simp: TTLSet_inv_def list_all_iff)
  show ?thesis
  proof (cases "addCount ?s1 mod CLEAN_EVERY = 0 \<or> length (m ?s1) > max_size ?s1")
    case False
    then show ?thesis using d le by (simp add: add_def Let_def TTLSet_inv_def)
  next
    case True
    then have eq: "add clk n s k = cleanup clk (Suc n) ?s1" by (simp add: add_def Let_def)
    have "m (fst (cleanup clk (Suc n) ?s1)) = cleanup_policy (clk (Suc n)) (max_size ?s1) (m ?s1)"
      by (rule cleanup_m) (use d in simp)
    then have sub: "set (m (fst (cleanup clk (Suc n) ?s1))) \<subseteq> set ?al"
      and dd: "distinct (map fst (m (fst (cleanup clk (Suc n) ?s1))))"
      using d by (auto simp: cleanup_policy_def Let_def unexpired_def distinct_map_filter)
    show ?thesis
      unfolding TTLSet_inv_def
      using add_size_le [of clk n s k] sub dd le
      by (auto simp: eq cleanup_fields list_all_iff)
  qed
qed

lemma cleanup_policy_order:
  assumes "x \<in> set (unexpired now mp)" and "x \<notin> set (cleanup_policy now mx mp)"
    and "y \<in> set (cleanup_policy now mx mp)"
  shows "snd x \<le> snd y"
proof -
  let ?lv = "unexpired now mp"
  let ?r = "length ?lv - mx"
  let ?arr = "sort_key snd ?lv"
  have x: "x \<in> set (take ?r ?arr)"
    using assms(1,2) by (simp add: cleanup_policy_def Let_def)
  have "y \<in> set ?arr" "y \<notin> set (take ?r ?arr)"
    using assms(3) by (simp_all add: cleanup_policy_def Let_def)
  then have y: "y \<in> set (drop ?r ?arr)"
    by (metis Un_iff append_take_drop_id set_append)
  have "sorted (map snd (take ?r ?arr @ drop ?r ?arr))" by simp
  then show ?thesis
    using x y unfolding map_append sorted_append by auto
qed

text \<open>
  C3. On every set (its keys are those of a map), \<^verbatim>\<open>cleanup()\<close> leaves exactly what the
  policy describes: the expired entries are gone, what else is removed is the excess over
  the maximum taken from the front of the stable expiry-ascending order (so every removed
  unexpired entry expires no later than every entry kept), and the size is the smaller of
  the number of unexpired entries and the maximum, hence within the maximum.
\<close>
theorem cleanup_follows_policy:
  assumes "distinct (map fst (m s))"
  shows "m (fst (cleanup clk n s)) = cleanup_policy (clk n) (max_size s) (m s) \<and>
         set (cleanup_policy (clk n) (max_size s) (m s)) \<subseteq> set (unexpired (clk n) (m s)) \<and>
         (\<forall>x \<in> set (unexpired (clk n) (m s)) - set (m (fst (cleanup clk n s))).
            \<forall>y \<in> set (m (fst (cleanup clk n s))). snd x \<le> snd y) \<and>
         size_TTLSet (fst (cleanup clk n s)) = min (length (unexpired (clk n) (m s))) (max_size s) \<and>
         size_TTLSet (fst (cleanup clk n s)) \<le> max_size (fst (cleanup clk n s))"
proof -
  have eq: "m (fst (cleanup clk n s)) = cleanup_policy (clk n) (max_size s) (m s)"
    using assms by (rule cleanup_m)
  have "set (cleanup_policy (clk n) (max_size s) (m s)) \<subseteq> set (unexpired (clk n) (m s))"
    by (auto simp: cleanup_policy_def Let_def)
  moreover have "\<forall>x \<in> set (unexpired (clk n) (m s)) - set (m (fst (cleanup clk n s))).
            \<forall>y \<in> set (m (fst (cleanup clk n s))). snd x \<le> snd y"
    unfolding eq using cleanup_policy_order by blast
  moreover have "size_TTLSet (fst (cleanup clk n s)) = min (length (unexpired (clk n) (m s))) (max_size s)"
    using assms by (simp add: size_TTLSet_def cleanup_size_eq)
  moreover have "size_TTLSet (fst (cleanup clk n s)) \<le> max_size (fst (cleanup clk n s))"
    by (simp add: size_TTLSet_def cleanup_size_le cleanup_fields)
  ultimately show ?thesis using eq by simp
qed

lemma example_set_cleanup:
  "m (fst (cleanup (\<lambda>i. 10) 0 example_set)) = [(''b'', 30), (''d'', 40)]"
  by (simp add: cleanup_def example_set_def Let_def AList.delete_eq trim.simps)

theorem cleanup_follows_policy_witness:
  "distinct (map fst (m example_set)) \<and>
   m (fst (cleanup (\<lambda>i. 10) 0 example_set)) = [(''b'', 30), (''d'', 40)] \<and>
   cleanup_policy 10 2 (m example_set) = [(''b'', 30), (''d'', 40)] \<and>
   (''c'', 20) \<in> set (unexpired 10 (m example_set)) - set (m (fst (cleanup (\<lambda>i. 10) 0 example_set))) \<and>
   size_TTLSet (fst (cleanup (\<lambda>i. 10) 0 example_set)) = 2"
proof -
  have d: "distinct (map fst (m example_set))" by (simp add: example_set_def)
  have u: "unexpired 10 (m example_set) = [(''b'', 30), (''c'', 20), (''d'', 40)]"
    by (simp add: unexpired_def example_set_def)
  have mx: "max_size example_set = 2" by (simp add: example_set_def)
  have "m (fst (cleanup (\<lambda>i. 10) 0 example_set)) = cleanup_policy 10 2 (m example_set)"
    using cleanup_follows_policy [OF d, of "\<lambda>i. 10" 0] by (simp add: mx)
  then have p: "cleanup_policy 10 2 (m example_set) = [(''b'', 30), (''d'', 40)]"
    by (simp add: example_set_cleanup)
  show ?thesis
    using d p by (simp add: example_set_cleanup u size_TTLSet_def)
qed

text \<open>
  C10. After every \<^verbatim>\<open>add(key)\<close>, from any state, the size is at most the maximum.
\<close>
theorem add_keeps_bound:
  "size_TTLSet (fst (add clk n s k)) \<le> max_size (fst (add clk n s k))"
  by (simp add: size_TTLSet_def add_size_le add_fields)

text \<open>
  C4, at the expiry instant. A hash added to the \<^verbatim>\<open>seen\<close> set at time 1000 is queried at
  time \<open>1000 + SEEN_TTL_MS\<close>, when the whole TTL has elapsed: \<^verbatim>\<open>has\<close> still answers true,
  since it tests \<^verbatim>\<open>t < Date.now()\<close>.
\<close>
theorem has_true_at_expiry_instant:
  "boundary_clock 1 = boundary_clock 0 + ttl (new_TTLSet SEEN_TTL_MS SEEN_MAX) \<and>
   fst (has boundary_clock 1 (fst (add boundary_clock 0 (new_TTLSet SEEN_TTL_MS SEEN_MAX) ''0xaa'')) ''0xaa'')"
  by (simp add: has_def add_def new_TTLSet_def boundary_clock_def CLEAN_EVERY_def SEEN_MAX_def SEEN_TTL_MS_def Let_def)

theorem has_after_add_witness:
  "TTLSet_inv boundary_clock 0 (new_TTLSet SEEN_TTL_MS SEEN_MAX) \<and>
   1 \<le> max_size (new_TTLSet SEEN_TTL_MS SEEN_MAX) \<and>
   boundary_clock (Suc 0) \<le> boundary_clock 0 + ttl (new_TTLSet SEEN_TTL_MS SEEN_MAX) \<and>
   \<not> fst (has boundary_clock 2 (fst (add boundary_clock 0 (new_TTLSet SEEN_TTL_MS SEEN_MAX) ''0xaa'')) ''0xaa'')"
proof -
  have 1: "TTLSet_inv boundary_clock 0 (new_TTLSet SEEN_TTL_MS SEEN_MAX)" by (rule inv_new)
  have 2: "1 \<le> max_size (new_TTLSet SEEN_TTL_MS SEEN_MAX)" by (simp add: new_TTLSet_def SEEN_MAX_def)
  have 3: "boundary_clock (Suc 0) \<le> boundary_clock 0 + ttl (new_TTLSet SEEN_TTL_MS SEEN_MAX)"
    by (simp add: boundary_clock_def new_TTLSet_def)
  have 4: "\<not> boundary_clock 2 \<le> boundary_clock 0 + ttl (new_TTLSet SEEN_TTL_MS SEEN_MAX)"
    by (simp add: boundary_clock_def new_TTLSet_def)
  show ?thesis
    using has_after_add [OF 1 2 3, of 2 "''0xaa''"] 1 2 3 4 by blast
qed


section \<open>Properties of the queue\<close>

lemma drop_count_eq: "drop_count = 2000"
  by (simp add: drop_count_def MAX_QUEUE_def)

lemma has_absent: "k \<notin> fst ` set (m s) \<Longrightarrow> has clk n s k = (False, s, n)"
proof -
  assume "k \<notin> fst ` set (m s)"
  then have "map_of (m s) k = None" by (simp add: map_of_eq_None_iff)
  then show ?thesis by (simp add: has_def)
qed

lemma trim_subset: "r \<le> length arr \<Longrightarrow> set (trim arr r 0 mp) \<subseteq> set mp"
  by (simp add: trim_filter_keys)

lemma cleanup_keys: "set (m (fst (cleanup clk n s))) \<subseteq> set (m s)"
proof (cases "length (sweep (clk n) (m s) (m s)) > max_size s")
  case True
  have "set (trim (sort_key snd (sweep (clk n) (m s) (m s)))
              (length (sweep (clk n) (m s) (m s)) - max_size s) 0 (sweep (clk n) (m s) (m s)))
        \<subseteq> set (sweep (clk n) (m s) (m s))"
    by (rule trim_subset) simp
  with True show ?thesis
    using sweep_subset [of "clk n" "m s" "m s"] by (simp add: cleanup_def Let_def)
next
  case False
  then show ?thesis
    using sweep_subset [of "clk n" "m s" "m s"] by (simp add: cleanup_def Let_def)
qed

lemma add_keys: "fst ` set (m (fst (add clk n s k))) \<subseteq> insert k (fst ` set (m s))"
proof -
  let ?al = "AList.update k (clk n + ttl s) (m s)"
  have "set (m (fst (add clk n s k))) \<subseteq> set ?al"
    using cleanup_keys [of clk "Suc n" "s\<lparr>m := ?al, addCount := Suc (addCount s)\<rparr>"]
    by (simp add: add_def Let_def)
  then have "fst ` set (m (fst (add clk n s k))) \<subseteq> fst ` set ?al" by (rule image_mono)
  then show ?thesis by (simp add: dom_update)
qed

lemma has_keys: "fst ` set (m (fst (snd (has clk n s k)))) \<subseteq> fst ` set (m s)"
proof -
  consider "m (fst (snd (has clk n s k))) = m s" | "m (fst (snd (has clk n s k))) = AList.delete k (m s)"
    using has_m [of clk n s k] by blast
  then show ?thesis
  proof cases
    case 1
    then show ?thesis by simp
  next
    case 2
    then show ?thesis using dom_delete_subset [of k "m s"] by simp
  qed
qed

lemma body_fresh:
  assumes "toLowerCase raw \<noteq> []" and "toLowerCase raw \<notin> fst ` set (m (seen w))"
  shows "q (enqueueMany_body e w raw) =
           (if length (q w) \<ge> MAX_QUEUE then drop drop_count (q w) else q w) @ [toLowerCase raw]"
proof -
  have h: "has (clock e) (steps w) (seen w) (toLowerCase raw) = (False, seen w, steps w)"
    using assms(2) by (rule has_absent)
  show ?thesis
    using assms(1) by (simp add: enqueueMany_body_def h Let_def split: prod.splits)
qed

lemma body_seen_keys:
  "fst ` set (m (seen (enqueueMany_body e w raw))) \<subseteq> insert (toLowerCase raw) (fst ` set (m (seen w)))"
proof -
  let ?h = "toLowerCase raw"
  obtain present sn n1 where hs: "has (clock e) (steps w) (seen w) ?h = (present, sn, n1)"
    by (cases "has (clock e) (steps w) (seen w) ?h") auto
  have sn: "fst ` set (m sn) \<subseteq> fst ` set (m (seen w))"
    using has_keys [of "clock e" "steps w" "seen w" ?h] hs by simp
  have ad: "fst ` set (m (fst (add (clock e) n1 sn ?h))) \<subseteq> insert ?h (fst ` set (m (seen w)))"
    using add_keys [of "clock e" n1 sn ?h] sn by auto
  have "seen (enqueueMany_body e w raw) = seen w \<or> seen (enqueueMany_body e w raw) = sn
        \<or> seen (enqueueMany_body e w raw) = fst (add (clock e) n1 sn ?h)"
    by (simp add: enqueueMany_body_def hs Let_def split: prod.splits)
  then show ?thesis
    using sn ad by (elim disjE) (simp_all only:, blast+)
qed

lemma body_other:
  "saved (enqueueMany_body e w raw) = saved w"
  "outputFile (enqueueMany_body e w raw) = outputFile w"
  by (simp_all add: enqueueMany_body_def Let_def split: prod.splits)

lemma enqueueMany_Cons: "enqueueMany e w (raw # rest) = enqueueMany e (enqueueMany_body e w raw) rest"
  by (simp add: enqueueMany_def)

lemma enqueueMany_Nil: "enqueueMany e w [] = w"
  by (simp add: enqueueMany_def)

lemma enqueueMany_append: "enqueueMany e w (xs @ ys) = enqueueMany e (enqueueMany e w xs) ys"
  by (simp add: enqueueMany_def)

lemma enqueueMany_seen_keys:
  "fst ` set (m (seen (enqueueMany e w hs))) \<subseteq> fst ` set (m (seen w)) \<union> toLowerCase ` set hs"
proof (induction hs arbitrary: w)
  case Nil
  then show ?case by (simp add: enqueueMany_Nil)
next
  case (Cons raw rest)
  show ?case
    using Cons.IH [of "enqueueMany_body e w raw"] body_seen_keys [of e w raw]
    by (auto simp: enqueueMany_Cons)
qed

lemma fresh_Cons:
  assumes "fresh w (raw # rest)"
  shows "toLowerCase raw \<noteq> []" and "toLowerCase raw \<notin> fst ` set (m (seen w))"
    and "fresh (enqueueMany_body e w raw) rest"
proof -
  show "toLowerCase raw \<noteq> []" using assms by (auto simp: fresh_def)
  show "toLowerCase raw \<notin> fst ` set (m (seen w))" using assms by (auto simp: fresh_def)
  have "toLowerCase ` set rest \<inter> insert (toLowerCase raw) (fst ` set (m (seen w))) = {}"
    using assms by (auto simp: fresh_def)
  then have "toLowerCase ` set rest \<inter> fst ` set (m (seen (enqueueMany_body e w raw))) = {}"
    using body_seen_keys [of e w raw] by blast
  then show "fresh (enqueueMany_body e w raw) rest"
    using assms by (simp add: fresh_def)
qed

lemma enqueueMany_fresh_length:
  "fresh w hs \<Longrightarrow> length (q (enqueueMany e w hs)) = (push_len ^^ length hs) (length (q w))"
proof (induction hs arbitrary: w)
  case Nil
  then show ?case by (simp add: enqueueMany_Nil)
next
  case (Cons raw rest)
  note f = fresh_Cons(1,2) [OF Cons.prems] fresh_Cons(3) [OF Cons.prems, of e]
  have "length (q (enqueueMany_body e w raw)) = push_len (length (q w))"
    using body_fresh [OF f(1,2), of e] by (simp add: push_len_def)
  then show ?case
    using Cons.IH [OF f(3)] by (simp add: enqueueMany_Cons funpow_swap1)
qed

lemma enqueueMany_fresh_room:
  "fresh w hs \<Longrightarrow> length (q w) + length hs \<le> MAX_QUEUE \<Longrightarrow>
   q (enqueueMany e w hs) = q w @ map toLowerCase hs"
proof (induction hs arbitrary: w)
  case Nil
  then show ?case by (simp add: enqueueMany_Nil)
next
  case (Cons raw rest)
  note f = fresh_Cons(1,2) [OF Cons.prems(1)] fresh_Cons(3) [OF Cons.prems(1), of e]
  have b: "q (enqueueMany_body e w raw) = q w @ [toLowerCase raw]"
    using body_fresh [OF f(1,2), of e] Cons.prems(2) by simp
  then show ?case
    using Cons.IH [OF f(3)] Cons.prems(2) by (simp add: enqueueMany_Cons)
qed

lemma push_len_room: "l + n \<le> MAX_QUEUE \<Longrightarrow> (push_len ^^ n) l = l + n"
  by (induction n arbitrary: l) (simp_all add: funpow_swap1 push_len_def)

lemma push_len_full:
  "0 < n \<Longrightarrow> (push_len ^^ n) MAX_QUEUE = MAX_QUEUE - drop_count + ((n - 1) mod drop_count) + 1"
proof (induction n rule: less_induct)
  case (less n)
  have dc: "0 < drop_count" "drop_count \<le> MAX_QUEUE" by (simp_all add: drop_count_eq MAX_QUEUE_def)
  obtain k where n: "n = Suc k" using less.prems by (cases n) auto
  have first: "(push_len ^^ n) MAX_QUEUE = (push_len ^^ k) (MAX_QUEUE - drop_count + 1)"
    by (simp add: n funpow_swap1 push_len_def)
  show ?case
  proof (cases "k < drop_count")
    case True
    then have "(push_len ^^ k) (MAX_QUEUE - drop_count + 1) = MAX_QUEUE - drop_count + 1 + k"
      using dc by (intro push_len_room) simp
    then show ?thesis using True first n by simp
  next
    case False
    let ?j = "drop_count - 1"
    let ?r = "k - ?j"
    have k: "k = ?j + ?r" using False dc by simp
    have r: "0 < ?r" "?r < n" using False dc n by simp_all
    have "(push_len ^^ k) (MAX_QUEUE - drop_count + 1)
          = (push_len ^^ ?r) ((push_len ^^ ?j) (MAX_QUEUE - drop_count + 1))"
      by (subst k) (simp only: funpow_add o_apply add.commute [of ?j ?r])
    also have "(push_len ^^ ?j) (MAX_QUEUE - drop_count + 1) = MAX_QUEUE"
      using dc by (subst push_len_room) simp_all
    also have "(push_len ^^ ?r) MAX_QUEUE = MAX_QUEUE - drop_count + ((?r - 1) mod drop_count) + 1"
      using r by (intro less.IH)
    also have "(?r - 1) mod drop_count = (n - 1) mod drop_count"
    proof -
      have "n - 1 = (?r - 1) + drop_count" using False dc n by simp
      then show ?thesis by simp
    qed
    finally show ?thesis using first by simp
  qed
qed

lemma lower_hash_of: "toLowerCase (hash_of i) = hash_of i"
proof -
  have "lower_char CHR ''0'' = CHR ''0''" "lower_char CHR ''x'' = CHR ''x''" by code_simp+
  then show ?thesis by (simp add: toLowerCase_def hash_of_def)
qed

lemma inj_hash_of: "inj hash_of"
proof (rule injI)
  fix i j assume "hash_of i = hash_of j"
  then have "length (hash_of i) = length (hash_of j)" by simp
  then show "i = j" by (simp add: hash_of_def)
qed

lemma map_lower_hash_of: "map toLowerCase (map hash_of is) = map hash_of is"
  by (simp add: lower_hash_of)

lemma fresh_hash_of:
  assumes "fst ` set (m (seen w)) \<subseteq> hash_of ` {0..<a}"
  shows "fresh w (map hash_of [a..<b])"
proof -
  have "distinct (map hash_of [a..<b])"
    using inj_hash_of by (simp add: distinct_map inj_on_def inj_def)
  moreover have "[] \<notin> hash_of ` set [a..<b]" by (auto simp: hash_of_def)
  moreover have "hash_of ` set [a..<b] \<inter> hash_of ` {0..<a} = {}"
    using inj_hash_of by (fastforce simp: inj_def)
  ultimately show ?thesis
    using assms unfolding fresh_def map_lower_hash_of
    by (simp add: image_image lower_hash_of) blast
qed

lemma init_seen_keys: "fst ` set (m (seen init_world)) = {}"
  by (simp add: init_world_def new_TTLSet_def)

lemma full_world_length: "length (q full_world) = MAX_QUEUE"
proof -
  have f: "fresh init_world (map hash_of [0..<MAX_QUEUE])"
    by (rule fresh_hash_of) (simp add: init_seen_keys)
  have "q (enqueueMany example_env init_world (map hash_of [0..<MAX_QUEUE]))
        = q init_world @ map toLowerCase (map hash_of [0..<MAX_QUEUE])"
    using f by (rule enqueueMany_fresh_room) (simp add: init_world_def)
  then show ?thesis by (simp add: full_world_def init_world_def)
qed

lemma full_world_fresh: "fresh full_world (next_batch n)"
proof -
  have "fst ` set (m (seen full_world)) \<subseteq> hash_of ` {0..<MAX_QUEUE}"
    using enqueueMany_seen_keys [of example_env init_world "map hash_of [0..<MAX_QUEUE]"]
    by (simp add: full_world_def init_seen_keys image_image lower_hash_of)
  then show ?thesis unfolding next_batch_def by (rule fresh_hash_of)
qed

text \<open>
  C2, as the code has it. With the queue at \<open>MAX_QUEUE\<close> and \<open>N \<ge> 1\<close> fresh hashes, the oldest
  \<open>drop_count\<close> entries go before the first hash is appended, and again each time the
  length is back at \<open>MAX_QUEUE\<close>: the final length is
  \<open>MAX_QUEUE - drop_count + (N - 1) mod drop_count + 1\<close>. For \<open>N \<le> drop_count\<close> the queue is the
  old one without its first \<open>drop_count\<close> entries followed by the new hashes, of length
  \<open>min MAX_QUEUE (MAX_QUEUE - drop_count + N)\<close>.
\<close>
theorem enqueueMany_at_capacity:
  assumes "length (q w) = MAX_QUEUE" and "fresh w hs" and "hs \<noteq> []"
  shows "length (q (enqueueMany e w hs))
           = MAX_QUEUE - drop_count + (length hs - 1) mod drop_count + 1 \<and>
         (length hs \<le> drop_count \<longrightarrow>
            q (enqueueMany e w hs) = drop drop_count (q w) @ map toLowerCase hs \<and>
            length (q (enqueueMany e w hs)) = min MAX_QUEUE (MAX_QUEUE - drop_count + length hs))"
proof -
  have len: "length (q (enqueueMany e w hs))
           = MAX_QUEUE - drop_count + (length hs - 1) mod drop_count + 1"
    using enqueueMany_fresh_length [OF assms(2), of e] assms(1,3)
    by (simp add: push_len_full)
  have "q (enqueueMany e w hs) = drop drop_count (q w) @ map toLowerCase hs
        \<and> length (q (enqueueMany e w hs)) = min MAX_QUEUE (MAX_QUEUE - drop_count + length hs)"
    if le: "length hs \<le> drop_count"
  proof -
    obtain raw rest where hs: "hs = raw # rest" using assms(3) by (cases hs) auto
    let ?w1 = "enqueueMany_body e w raw"
    have f1: "toLowerCase raw \<noteq> []" "toLowerCase raw \<notin> fst ` set (m (seen w))"
      using fresh_Cons(1,2) [OF assms(2) [unfolded hs]] by simp_all
    have f2: "fresh ?w1 rest" using fresh_Cons(3) [OF assms(2) [unfolded hs]] .
    have q1: "q ?w1 = drop drop_count (q w) @ [toLowerCase raw]"
      using body_fresh [OF f1, of e] assms(1) by simp
    have "length (q ?w1) + length rest \<le> MAX_QUEUE"
      using le assms(1) by (simp add: q1 hs drop_count_eq MAX_QUEUE_def)
    then have "q (enqueueMany e ?w1 rest) = q ?w1 @ map toLowerCase rest"
      using f2 by (intro enqueueMany_fresh_room)
    then have eq: "q (enqueueMany e w hs) = drop drop_count (q w) @ map toLowerCase hs"
      by (simp add: hs enqueueMany_Cons q1)
    then show ?thesis
      using le assms(1) by (simp add: drop_count_eq MAX_QUEUE_def)
  qed
  with len show ?thesis by blast
qed

text \<open>The full queue of the example run receives two more hashes.\<close>

theorem enqueueMany_at_capacity_witness:
  "length (q full_world) = MAX_QUEUE \<and> fresh full_world (next_batch 2) \<and> next_batch 2 \<noteq> [] \<and>
   length (next_batch 2) \<le> drop_count \<and>
   length (q (enqueueMany example_env full_world (next_batch 2))) = 198002 \<and>
   q (enqueueMany example_env full_world (next_batch 2))
     = drop drop_count (q full_world) @ [hash_of MAX_QUEUE, hash_of (Suc MAX_QUEUE)]"
proof -
  have n: "next_batch 2 = [hash_of MAX_QUEUE, hash_of (Suc MAX_QUEUE)]"
    by (simp add: next_batch_def upt_rec [of MAX_QUEUE] upt_rec [of "Suc MAX_QUEUE"])
  have ne: "next_batch 2 \<noteq> []" by (simp add: n)
  have le: "length (next_batch 2) \<le> drop_count" by (simp add: n drop_count_eq)
  show ?thesis
    using enqueueMany_at_capacity [OF full_world_length full_world_fresh ne, of example_env]
      full_world_length full_world_fresh [of 2] ne le
    by (simp add: n lower_hash_of drop_count_eq MAX_QUEUE_def)
qed

text \<open>
  C2, beyond one percent. The full queue of the example run receives 2001 fresh hashes: the
  2001st meets a queue that is full again, and the final length is 198001, not
  \<open>min MAX_QUEUE (MAX_QUEUE - drop_count + 2001) = 200000\<close>.
\<close>

theorem enqueueMany_over_one_percent:
  "length (q full_world) = MAX_QUEUE \<and> fresh full_world (next_batch 2001) \<and>
   length (next_batch 2001) = 2001 \<and>
   length (q (enqueueMany example_env full_world (next_batch 2001))) = 198001 \<and>
   min MAX_QUEUE (MAX_QUEUE - drop_count + 2001) = 200000"
proof -
  have l: "length (next_batch 2001) = 2001" by (simp add: next_batch_def)
  have "length (q (enqueueMany example_env full_world (next_batch 2001)))
        = (push_len ^^ 2001) (length (q full_world))"
    using full_world_fresh by (simp add: enqueueMany_fresh_length l)
  also have "\<dots> = MAX_QUEUE - drop_count + (2001 - 1) mod drop_count + 1"
    unfolding full_world_length by (rule push_len_full) simp
  also have "\<dots> = 198001" by (simp add: drop_count_eq MAX_QUEUE_def)
  finally show ?thesis
    using full_world_length full_world_fresh [of 2001] l
    by (simp add: drop_count_eq MAX_QUEUE_def)
qed


section \<open>Entries that stay in a set\<close>

















section \<open>Idempotent intake\<close>



lemma lower_0xAA: "toLowerCase ''0xAA'' = ''0xaa''" "toLowerCase ''0xaa'' = ''0xaa''"
  by code_simp+







section \<open>Matches are recorded once\<close>

lemma targetAddress_eq: "targetAddress = ''0x66a9893cc07d91d95644aedd05d03f95e1dba8af''"
  by code_simp

lemma targetAddress_nonempty: "targetAddress \<noteq> []"
  by (simp add: targetAddress_eq)



lemma saveIfMatch_failed:
  assumes "map_option toLowerCase (tx_to t) = Some targetAddress"
    and "has (clock e) (steps w) (saved w) (toLowerCase (tx_hash t)) = (False, sv, n1)"
    and "\<not> appendFileSync e (Suc n1)"
  shows "saveIfMatch e w t = (Some IOError, w\<lparr>saved := sv, steps := Suc (Suc n1)\<rparr>)"
  using assms by (auto simp: saveIfMatch_def targetAddress_nonempty Let_def)



lemma example_tx_match:
  "map_option toLowerCase (tx_to example_tx) = Some targetAddress"
  by (simp add: example_tx_def targetAddress_def)


lemma lower_Target: "toLowerCase ''0x66a9893cC07D91D95644AEDD05D03f95e1dBA8Af'' = targetAddress"
  by (simp add: targetAddress_def)




































section \<open>Retries\<close>

lemma retry_trace_0: "retry_trace h base first 0 = []"
  by (simp add: retry_trace_def)

lemma retry_trace_Suc:
  "retry_trace h base first (Suc n)
     = GetTransaction h # Backoff base first # retry_trace h base (Suc first) n"
proof -
  have "[0..<Suc n] = 0 # map Suc [0..<n]" by (simp add: upt_conv_Cons map_Suc_upt del: upt_Suc)
  then show ?thesis by (simp add: retry_trace_def comp_def del: upt_Suc)
qed

lemma retry_trace_fetches:
  "length (filter (\<lambda>c. c = GetTransaction h) (retry_trace h base first n)) = n"
  by (induction n arbitrary: first) (simp_all add: retry_trace_0 retry_trace_Suc)

lemma no_detail_cases:
  assumes "\<forall>i t. getTransaction e i h \<noteq> Inr (Some t)"
  shows "(case getTransaction e i h of Inr (Some t) \<Rightarrow> f t | _ \<Rightarrow> g) = g"
  using assms by (auto split: sum.splits option.splits)

lemma getTxWithRetry_from_never:
  assumes never: "\<forall>i t. getTransaction e i h \<noteq> Inr (Some t)"
  shows "MAX_RETRY - i = k \<Longrightarrow> i \<le> MAX_RETRY \<Longrightarrow>
         getTxWithRetry_from e w h i
           = (None, w\<lparr>calls := calls w @ retry_trace h BASE_BACKOFF i k, steps := steps w + k\<rparr>)"
proof (induction k arbitrary: w i)
  case 0
  then have "\<not> i < MAX_RETRY" by simp
  then show ?case by (simp add: getTxWithRetry_from.simps [of e w h i] retry_trace_0)
next
  case (Suc k)
  then have lt: "i < MAX_RETRY" and k: "MAX_RETRY - Suc i = k" "Suc i \<le> MAX_RETRY" by simp_all
  let ?w2 = "w\<lparr>steps := Suc (steps w),
               calls := calls w @ [GetTransaction h, Backoff BASE_BACKOFF i]\<rparr>"
  have "getTxWithRetry_from e w h i = getTxWithRetry_from e ?w2 h (Suc i)"
    using lt by (subst getTxWithRetry_from.simps) (simp add: Let_def no_detail_cases [OF never])
  also have "\<dots> = (None, ?w2\<lparr>calls := calls ?w2 @ retry_trace h BASE_BACKOFF (Suc i) k,
                              steps := steps ?w2 + k\<rparr>)"
    using k by (rule Suc.IH)
  finally show ?case by (simp add: retry_trace_Suc)
qed

lemma fetchTxWithRetry_from_never:
  assumes never: "\<forall>i t. getTransaction e i h \<noteq> Inr (Some t)"
  shows "id_MAX_RETRY - i = k \<Longrightarrow> i \<le> id_MAX_RETRY \<Longrightarrow>
         fetchTxWithRetry_from e w h i
           = (None, w\<lparr>id_calls := id_calls w @ retry_trace h BASE_BACKOFF_MS (Suc i) k,
                       id_steps := id_steps w + k\<rparr>)"
proof (induction k arbitrary: w i)
  case 0
  then have "\<not> i < id_MAX_RETRY" by simp
  then show ?case by (simp add: fetchTxWithRetry_from.simps [of e w h i] retry_trace_0)
next
  case (Suc k)
  then have lt: "i < id_MAX_RETRY" and k: "id_MAX_RETRY - Suc i = k" "Suc i \<le> id_MAX_RETRY"
    by simp_all
  let ?w2 = "w\<lparr>id_steps := Suc (id_steps w),
               id_calls := id_calls w @ [GetTransaction h, Backoff BASE_BACKOFF_MS (Suc i)]\<rparr>"
  have "fetchTxWithRetry_from e w h i = fetchTxWithRetry_from e ?w2 h (Suc i)"
    using lt by (subst fetchTxWithRetry_from.simps) (simp add: Let_def no_detail_cases [OF never])
  also have "\<dots> = (None, ?w2\<lparr>id_calls := id_calls ?w2 @ retry_trace h BASE_BACKOFF_MS (Suc (Suc i)) k,
                              id_steps := id_steps ?w2 + k\<rparr>)"
    using k by (rule Suc.IH)
  finally show ?case by (simp add: retry_trace_Suc)
qed

text \<open>
  When no call for \<open>h\<close> yields a detail (it answers \<^verbatim>\<open>null\<close> or throws), \<^verbatim>\<open>getTxWithRetry\<close>
  makes exactly \<open>MAX_RETRY\<close> attempts, asks for a sleep after each of them (after the last
  one too) and returns \<^verbatim>\<open>null\<close>, and so does \<^verbatim>\<open>fetchTxWithRetry\<close> of \<^verbatim>\<open>id.ts\<close> with its own
  constants. Nothing is thrown, and only the calls and the interaction counter change. The
  exponents of the sleeps are \<open>0, \<dots>, MAX_RETRY - 1\<close> in \<^verbatim>\<open>fetchhhh.ts\<close> and \<open>1, \<dots>, MAX_RETRY\<close>
  in \<^verbatim>\<open>id.ts\<close>.
\<close>

lemma retry_exhausted:
  assumes "\<forall>i t. getTransaction e i h \<noteq> Inr (Some t)"
  shows "getTxWithRetry e w h
           = (None, w\<lparr>calls := calls w @ retry_trace h BASE_BACKOFF 0 MAX_RETRY,
                       steps := steps w + MAX_RETRY\<rparr>)"
    and "fetchTxWithRetry e iw h
           = (None, iw\<lparr>id_calls := id_calls iw @ retry_trace h BASE_BACKOFF_MS 1 id_MAX_RETRY,
                        id_steps := id_steps iw + id_MAX_RETRY\<rparr>)"
proof -
  show "getTxWithRetry e w h
           = (None, w\<lparr>calls := calls w @ retry_trace h BASE_BACKOFF 0 MAX_RETRY,
                       steps := steps w + MAX_RETRY\<rparr>)"
    unfolding getTxWithRetry_def
    by (rule getTxWithRetry_from_never [OF assms]) simp_all
  show "fetchTxWithRetry e iw h
           = (None, iw\<lparr>id_calls := id_calls iw @ retry_trace h BASE_BACKOFF_MS 1 id_MAX_RETRY,
                        id_steps := id_steps iw + id_MAX_RETRY\<rparr>)"
    unfolding fetchTxWithRetry_def
    using fetchTxWithRetry_from_never [OF assms, of 0 id_MAX_RETRY iw]
    by simp
qed

lemma dead_env_never: "\<forall>i t. getTransaction dead_env i h \<noteq> Inr (Some t)"
  by (simp add: dead_env_def)

lemma retry_trace_6:
  "retry_trace h BASE_BACKOFF 0 MAX_RETRY =
     [GetTransaction h, Backoff BASE_BACKOFF 0, GetTransaction h, Backoff BASE_BACKOFF 1,
      GetTransaction h, Backoff BASE_BACKOFF 2, GetTransaction h, Backoff BASE_BACKOFF 3,
      GetTransaction h, Backoff BASE_BACKOFF 4, GetTransaction h, Backoff BASE_BACKOFF 5]"
proof -
  have e: "MAX_RETRY = Suc (Suc (Suc (Suc (Suc (Suc 0)))))" by (simp add: MAX_RETRY_def)
  show ?thesis
    unfolding e by (simp add: retry_trace_Suc retry_trace_0 eval_nat_numeral)
qed

lemma retry_trace_snoc:
  "retry_trace h base first (Suc n) = retry_trace h base first n @ [GetTransaction h, Backoff base (first + n)]"
  by (simp add: retry_trace_def)

text \<open>
  The exact value of the product that \<^verbatim>\<open>id.ts\<close> hands to the timer is above \<open>2^31 - 1\<close>, the
  longest delay of the timer, from the exponent 53 on.
\<close>

lemma backoff_beyond_timer:
  "BASE_BACKOFF_MS * 1.4 ^ 52 < 2 ^ 31 - 1" "2 ^ 31 - 1 < BASE_BACKOFF_MS * 1.4 ^ 53"
  by (simp_all add: BASE_BACKOFF_MS_def power_divide divide_simps)

text \<open>
  C5, in \<^verbatim>\<open>id.ts\<close>. The provider never has the detail of the hash. \<^verbatim>\<open>fetchTxWithRetry\<close> makes its
  100 attempts and returns \<^verbatim>\<open>null\<close>, but the sleep after the first failed attempt is
  \<^verbatim>\<open>BASE_BACKOFF_MS * Math.pow(1.4, 1)\<close> and the sleep after the last one is
  \<^verbatim>\<open>BASE_BACKOFF_MS * Math.pow(1.4, 100)\<close>: the counter is incremented before the delay is
  computed. \<^verbatim>\<open>getTxWithRetry\<close> of \<^verbatim>\<open>fetchhhh.ts\<close> has the exponents 0 to 5 for its 6 attempts.
\<close>

theorem fetchTxWithRetry_backoff_exponents:
  "fst (fetchTxWithRetry dead_env id_init_world ''0xaa'') = None \<and>
   length (filter (\<lambda>c. c = GetTransaction ''0xaa'')
             (id_calls (snd (fetchTxWithRetry dead_env id_init_world ''0xaa'')))) = 100 \<and>
   take 2 (id_calls (snd (fetchTxWithRetry dead_env id_init_world ''0xaa'')))
     = [GetTransaction ''0xaa'', Backoff BASE_BACKOFF_MS 1] \<and>
   last (id_calls (snd (fetchTxWithRetry dead_env id_init_world ''0xaa''))) = Backoff BASE_BACKOFF_MS 100 \<and>
   fst (getTxWithRetry dead_env init_world ''0xaa'') = None \<and>
   calls (snd (getTxWithRetry dead_env init_world ''0xaa''))
     = [GetTransaction ''0xaa'', Backoff BASE_BACKOFF 0, GetTransaction ''0xaa'', Backoff BASE_BACKOFF 1,
        GetTransaction ''0xaa'', Backoff BASE_BACKOFF 2, GetTransaction ''0xaa'', Backoff BASE_BACKOFF 3,
        GetTransaction ''0xaa'', Backoff BASE_BACKOFF 4, GetTransaction ''0xaa'', Backoff BASE_BACKOFF 5]"
proof -
  let ?t = "retry_trace ''0xaa'' BASE_BACKOFF_MS 1 id_MAX_RETRY"
  have e: "id_MAX_RETRY = Suc 99" by (simp add: id_MAX_RETRY_def)
  have f: "fetchTxWithRetry dead_env id_init_world ''0xaa''
             = (None, id_init_world\<lparr>id_calls := ?t, id_steps := id_MAX_RETRY\<rparr>)"
    using retry_exhausted(2) [OF dead_env_never, where h = "''0xaa''" and iw = id_init_world]
    by (simp add: id_init_world_def)
  have g: "getTxWithRetry dead_env init_world ''0xaa''
             = (None, init_world\<lparr>calls := retry_trace ''0xaa'' BASE_BACKOFF 0 MAX_RETRY,
                                 steps := MAX_RETRY\<rparr>)"
    using retry_exhausted(1) [OF dead_env_never, where h = "''0xaa''" and w = init_world]
    by (simp add: init_world_def)
  have 1: "length (filter (\<lambda>c. c = GetTransaction ''0xaa'') ?t) = 100"
    by (simp add: retry_trace_fetches id_MAX_RETRY_def)
  have 2: "take 2 ?t = [GetTransaction ''0xaa'', Backoff BASE_BACKOFF_MS 1]"
    unfolding e retry_trace_Suc by simp
  have 3: "last ?t = Backoff BASE_BACKOFF_MS 100"
    unfolding e retry_trace_snoc by simp
  show ?thesis
    unfolding f g using 1 2 3 by (simp add: retry_trace_6)
qed


section \<open>The lines written\<close>

lemma saveIfMatch_appends_lower_line:
  "outputFile (snd (saveIfMatch e w t)) = outputFile w \<or>
   (\<exists>stamp. outputFile (snd (saveIfMatch e w t))
              = outputFile w @ [record_line e stamp (toLowerCase (tx_hash t))])"
  by (auto simp: saveIfMatch_def Let_def split: option.splits prod.splits)

lemma id_saveIfMatch_appends_lower_line:
  "id_outputFile (snd (id_saveIfMatch e w t)) = id_outputFile w \<or>
   (\<exists>stamp. id_outputFile (snd (id_saveIfMatch e w t))
              = id_outputFile w @ [record_line e stamp (toLowerCase (tx_hash t))])"
  by (auto simp: id_saveIfMatch_def Let_def split: option.splits)

lemma on_pending_appends:
  "js_outputFile (on_pending e w txHash) = js_outputFile w \<or>
   (\<exists>stamp. js_outputFile (on_pending e w txHash) = js_outputFile w @ [record_line e stamp txHash])"
  by (auto simp: on_pending_def Let_def split: option.splits sum.splits)

text \<open>
  C9, in \<^verbatim>\<open>index.js\<close>. The subscription delivers the hash \<^verbatim>\<open>0xAA\<close> of a transaction to the target
  address: the handler appends the line with the hash as delivered, \<^verbatim>\<open>0xAA\<close>, which is not
  its lower-case form; \<^verbatim>\<open>saveIfMatch\<close> of the two other scripts writes \<^verbatim>\<open>0xaa\<close>.
\<close>

theorem on_pending_writes_hash_as_delivered:
  "js_outputFile (on_pending example_env js_init_world ''0xAA'')
     = [''2026-11-03T00:00:00.000Z | 0xAA'' @ [CHR 0x0A]] \<and>
   toLowerCase ''0xAA'' \<noteq> ''0xAA'' \<and>
   outputFile (snd (saveIfMatch example_env init_world example_tx))
     = [''2026-11-03T00:00:00.000Z | 0xaa'' @ [CHR 0x0A]]"
proof -
  have a: "js_outputFile (on_pending example_env js_init_world ''0xAA'')
     = [''2026-11-03T00:00:00.000Z | 0xAA'' @ [CHR 0x0A]]"
    by (simp add: on_pending_def example_env_def example_tx_def js_init_world_def lower_Target
        record_line_def Let_def)
  have b: "toLowerCase ''0xAA'' \<noteq> ''0xAA''" by (simp add: lower_0xAA)
  have c: "outputFile (snd (saveIfMatch example_env init_world example_tx))
     = [''2026-11-03T00:00:00.000Z | 0xaa'' @ [CHR 0x0A]]"
    by (simp add: saveIfMatch_def example_tx_def lower_Target lower_0xAA targetAddress_nonempty
        init_world_def new_TTLSet_def has_def add_def Let_def CLEAN_EVERY_def SAVED_MAX_def
        SAVED_TTL_MS_def example_env_def record_line_def)
  show ?thesis using a b c by simp
qed


section \<open>Fallback methods of the poll\<close>

lemma rpc_simps:
  "fst (rpc e w method) = send e (steps w) method"
  "snd (rpc e w method) = w\<lparr>calls := calls w @ [Send method], steps := Suc (steps w)\<rparr>"
  by (simp_all add: rpc_def)

lemma listPendingHashes_first_fallback:
  assumes "send e (steps w) ''txpool_content'' = Inl x"
    and "legacy_hashes (send e (Suc (steps w)) ''eth_pendingTransactions'') = Inr hs"
  shows "listPendingHashes e w
           = (Inr hs, w\<lparr>calls := calls w @ [Send ''txpool_content'', Send ''eth_pendingTransactions''],
                         steps := steps w + 2\<rparr>)"
  using assms by (simp add: listPendingHashes_def rpc_def)

lemma listPendingHashes_second_fallback:
  assumes "send e (steps w) ''txpool_content'' = Inl x"
    and "legacy_hashes (send e (Suc (steps w)) ''eth_pendingTransactions'') = Inl x2"
    and "legacy_hashes (send e (Suc (Suc (steps w))) ''parity_pendingTransactions'') = Inr hs"
  shows "listPendingHashes e w
           = (Inr hs, w\<lparr>calls := calls w @ [Send ''txpool_content'', Send ''eth_pendingTransactions'',
                                              Send ''parity_pendingTransactions''],
                         steps := steps w + 3\<rparr>)"
  using assms by (simp add: listPendingHashes_def rpc_def)

lemma listPendingHashes_all_fail:
  assumes "send e (steps w) ''txpool_content'' = Inl x"
    and "legacy_hashes (send e (Suc (steps w)) ''eth_pendingTransactions'') = Inl x2"
    and "legacy_hashes (send e (Suc (Suc (steps w))) ''parity_pendingTransactions'') = Inl x3"
  shows "listPendingHashes e w
           = (Inl PendingListError,
              w\<lparr>calls := calls w @ [Send ''txpool_content'', Send ''eth_pendingTransactions'',
                                     Send ''parity_pendingTransactions''],
                steps := steps w + 3\<rparr>)"
  using assms by (simp add: listPendingHashes_def rpc_def)

text \<open>
  C7. When \<^verbatim>\<open>txpool_content\<close> fails, \<^verbatim>\<open>listPendingHashes\<close> sends \<^verbatim>\<open>eth_pendingTransactions\<close> and
  returns its hashes; when that fails too it sends \<^verbatim>\<open>parity_pendingTransactions\<close>; the calls
  are made in this order. When all three fail, the turn of the loop leaves the queue, the
  two sets and the file as they were (nothing is enqueued or processed in this turn), logs
  the warning, sleeps the rest of the interval and returns, so that the next turn runs.
\<close>

theorem backfill_fallbacks:
  "(send e (steps w) ''txpool_content'' = Inl x \<longrightarrow>
      legacy_hashes (send e (Suc (steps w)) ''eth_pendingTransactions'') = Inr hs \<longrightarrow>
      listPendingHashes e w
        = (Inr hs, w\<lparr>calls := calls w @ [Send ''txpool_content'', Send ''eth_pendingTransactions''],
                      steps := steps w + 2\<rparr>)) \<and>
   (send e (steps w) ''txpool_content'' = Inl x \<longrightarrow>
      legacy_hashes (send e (Suc (steps w)) ''eth_pendingTransactions'') = Inl x2 \<longrightarrow>
      legacy_hashes (send e (Suc (Suc (steps w))) ''parity_pendingTransactions'') = Inr hs \<longrightarrow>
      listPendingHashes e w
        = (Inr hs, w\<lparr>calls := calls w @ [Send ''txpool_content'', Send ''eth_pendingTransactions'',
                                           Send ''parity_pendingTransactions''],
                      steps := steps w + 3\<rparr>)) \<and>
   (send e (Suc (steps w)) ''txpool_content'' = Inl x \<longrightarrow>
      legacy_hashes (send e (Suc (Suc (steps w))) ''eth_pendingTransactions'') = Inl x2 \<longrightarrow>
      legacy_hashes (send e (Suc (Suc (Suc (steps w)))) ''parity_pendingTransactions'') = Inl x3 \<longrightarrow>
      loop_body e w
        = w\<lparr>calls := calls w @ [Send ''txpool_content'', Send ''eth_pendingTransactions'',
                                 Send ''parity_pendingTransactions'']
                       @ (if clock e (steps w + 4) - clock e (steps w) < POLL_MS
                          then [Sleep (real_of_int (POLL_MS - (clock e (steps w + 4) - clock e (steps w))))]
                          else []),
            console := console w @ [PollError PendingListError],
            steps := steps w + 5\<rparr> \<and>
      loop (Suc k) e w = loop k e (loop_body e w))"
proof (intro conjI impI)
  assume "send e (steps w) ''txpool_content'' = Inl x"
    and "legacy_hashes (send e (Suc (steps w)) ''eth_pendingTransactions'') = Inr hs"
  then show "listPendingHashes e w
        = (Inr hs, w\<lparr>calls := calls w @ [Send ''txpool_content'', Send ''eth_pendingTransactions''],
                      steps := steps w + 2\<rparr>)"
    by (rule listPendingHashes_first_fallback)
next
  assume "send e (steps w) ''txpool_content'' = Inl x"
    and "legacy_hashes (send e (Suc (steps w)) ''eth_pendingTransactions'') = Inl x2"
    and "legacy_hashes (send e (Suc (Suc (steps w))) ''parity_pendingTransactions'') = Inr hs"
  then show "listPendingHashes e w
        = (Inr hs, w\<lparr>calls := calls w @ [Send ''txpool_content'', Send ''eth_pendingTransactions'',
                                           Send ''parity_pendingTransactions''],
                      steps := steps w + 3\<rparr>)"
    by (rule listPendingHashes_second_fallback)
next
  assume a: "send e (Suc (steps w)) ''txpool_content'' = Inl x"
    "legacy_hashes (send e (Suc (Suc (steps w))) ''eth_pendingTransactions'') = Inl x2"
    "legacy_hashes (send e (Suc (Suc (Suc (steps w)))) ''parity_pendingTransactions'') = Inl x3"
  let ?w0 = "w\<lparr>steps := Suc (steps w)\<rparr>"
  have "listPendingHashes e ?w0
           = (Inl PendingListError,
              ?w0\<lparr>calls := calls ?w0 @ [Send ''txpool_content'', Send ''eth_pendingTransactions'',
                                     Send ''parity_pendingTransactions''],
                steps := steps ?w0 + 3\<rparr>)"
    by (rule listPendingHashes_all_fail [where x = x and ?x2.0 = x2 and ?x3.0 = x3]) (use a in simp_all)
  then show "loop_body e w
        = w\<lparr>calls := calls w @ [Send ''txpool_content'', Send ''eth_pendingTransactions'',
                                 Send ''parity_pendingTransactions'']
                       @ (if clock e (steps w + 4) - clock e (steps w) < POLL_MS
                          then [Sleep (real_of_int (POLL_MS - (clock e (steps w + 4) - clock e (steps w))))]
                          else []),
            console := console w @ [PollError PendingListError],
            steps := steps w + 5\<rparr>"
    by (simp add: loop_body_def poll_def Let_def add.commute)
next
  show "loop (Suc k) e w = loop k e (loop_body e w)" by simp
qed

lemma dead_env_loop_body:
  "loop_body dead_env init_world
     = init_world\<lparr>calls := [Send ''txpool_content'', Send ''eth_pendingTransactions'',
                             Send ''parity_pendingTransactions'', Sleep 1996],
                   console := [PollError PendingListError], steps := 5\<rparr>"
  by (simp add: loop_body_def poll_def listPendingHashes_def rpc_def legacy_hashes_def dead_env_def
      init_world_def POLL_MS_def Let_def)

theorem backfill_fallbacks_witness:
  "send legacy_env 0 ''txpool_content'' = Inl RpcError \<and>
   listPendingHashes legacy_env init_world
     = (Inr [''0xAA''], init_world\<lparr>calls := [Send ''txpool_content'', Send ''eth_pendingTransactions''],
                                   steps := 2\<rparr>) \<and>
   legacy_hashes (send legacy_env 6 ''eth_pendingTransactions'') = Inl RpcError \<and>
   fst (listPendingHashes legacy_env (init_world\<lparr>steps := 5\<rparr>)) = Inr [''0xBB''] \<and>
   legacy_hashes (send dead_env 3 ''parity_pendingTransactions'') = Inl RpcError \<and>
   q (loop_body dead_env init_world) = q init_world \<and>
   console (loop_body dead_env init_world) = [PollError PendingListError]"
proof -
  have 1: "send legacy_env (steps init_world) ''txpool_content'' = Inl RpcError"
    "send legacy_env 0 ''txpool_content'' = Inl RpcError"
    by (simp_all add: legacy_env_def)
  have 2: "legacy_hashes (send legacy_env (Suc (steps init_world)) ''eth_pendingTransactions'') = Inr [''0xAA'']"
    by (simp add: legacy_env_def legacy_hashes_def truthy_hashes_def init_world_def)
  have a: "listPendingHashes legacy_env init_world
     = (Inr [''0xAA''], init_world\<lparr>calls := [Send ''txpool_content'', Send ''eth_pendingTransactions''],
                                   steps := 2\<rparr>)"
    using backfill_fallbacks [where e = legacy_env and w = init_world and x = RpcError
        and hs = "[''0xAA'']"] 1 2
    by (simp add: init_world_def)
  let ?w5 = "init_world\<lparr>steps := 5\<rparr>"
  have 3: "send legacy_env (steps ?w5) ''txpool_content'' = Inl RpcError"
    "legacy_hashes (send legacy_env (Suc (steps ?w5)) ''eth_pendingTransactions'') = Inl RpcError"
    "legacy_hashes (send legacy_env 6 ''eth_pendingTransactions'') = Inl RpcError"
    "legacy_hashes (send legacy_env (Suc (Suc (steps ?w5))) ''parity_pendingTransactions'') = Inr [''0xBB'']"
    by (simp_all add: legacy_env_def legacy_hashes_def truthy_hashes_def)
  have b: "fst (listPendingHashes legacy_env ?w5) = Inr [''0xBB'']"
    using backfill_fallbacks [where e = legacy_env and w = ?w5 and x = RpcError
        and ?x2.0 = RpcError and hs = "[''0xBB'']"] 3
    by simp
  have 4: "send dead_env (Suc (steps init_world)) ''txpool_content'' = Inl RpcError"
    "legacy_hashes (send dead_env (Suc (Suc (steps init_world))) ''eth_pendingTransactions'') = Inl RpcError"
    "legacy_hashes (send dead_env (Suc (Suc (Suc (steps init_world)))) ''parity_pendingTransactions'') = Inl RpcError"
    "legacy_hashes (send dead_env 3 ''parity_pendingTransactions'') = Inl RpcError"
    by (simp_all add: dead_env_def legacy_hashes_def)
  have c: "q (loop_body dead_env init_world) = q init_world \<and>
           console (loop_body dead_env init_world) = [PollError PendingListError]"
    using backfill_fallbacks [where e = dead_env and w = init_world and x = RpcError
        and ?x2.0 = RpcError and ?x3.0 = RpcError] 4
    by (simp add: init_world_def)
  show ?thesis using 1 a 3 b 4 c by simp
qed


section \<open>Failure of the write\<close>

lemma getTxWithRetry_first:
  assumes "getTransaction e (steps w) h = Inr (Some t)"
  shows "getTxWithRetry e w h
           = (Some t, w\<lparr>calls := calls w @ [GetTransaction h], steps := Suc (steps w)\<rparr>)"
  using assms
  by (simp add: getTxWithRetry_def getTxWithRetry_from.simps [of e w h 0] MAX_RETRY_def Let_def)

lemma fetchTxWithRetry_first:
  assumes "getTransaction e (id_steps w) h = Inr (Some t)"
  shows "fetchTxWithRetry e w h
           = (Some t, w\<lparr>id_calls := id_calls w @ [GetTransaction h], id_steps := Suc (id_steps w)\<rparr>)"
  using assms
  by (simp add: fetchTxWithRetry_def fetchTxWithRetry_from.simps [of e w h 0] id_MAX_RETRY_def Let_def)

lemma getTxWithRetry_from_q:
  "MAX_RETRY - i = k \<Longrightarrow> q (snd (getTxWithRetry_from e w h i)) = q w"
proof (induction k arbitrary: w i)
  case 0
  then show ?case by (simp add: getTxWithRetry_from.simps [of e w h i])
next
  case (Suc k)
  then have "MAX_RETRY - Suc i = k" by simp
  note ih = Suc.IH [OF this]
  show ?case
    by (subst getTxWithRetry_from.simps)
      (simp add: Let_def ih split: sum.splits option.splits)
qed

lemma saveIfMatch_q: "q (snd (saveIfMatch e w t)) = q w"
  by (simp add: saveIfMatch_def Let_def split: option.splits prod.splits)

lemma workers_q: "q (snd (workers e w hs)) = q w"
proof (induction hs arbitrary: w)
  case Nil
  then show ?case by simp
next
  case (Cons h hs)
  have g: "q (snd (getTxWithRetry e w h)) = q w"
    by (simp add: getTxWithRetry_def getTxWithRetry_from_q)
  show ?case
  proof (cases "getTxWithRetry e w h")
    case (Pair r w1)
    with g have q1: "q w1 = q w" by simp
    show ?thesis
    proof (cases r)
      case None
      then show ?thesis using Pair Cons.IH [of w1] q1 by simp
    next
      case (Some t)
      have s: "q (snd (saveIfMatch e w1 t)) = q w" using saveIfMatch_q [of e w1 t] q1 by simp
      show ?thesis
      proof (cases "saveIfMatch e w1 t")
        case (Pair x w2)
        with s have q2: "q w2 = q w" by simp
        show ?thesis
          using \<open>getTxWithRetry e w h = (r, w1)\<close> Some Pair Cons.IH [of w2] q2
          by (cases x) simp_all
      qed
    qed
  qed
qed

lemma id_saveIfMatch_write_fails:
  assumes "map_option toLowerCase (tx_to t) = Some targetAddress"
    and "toLowerCase (tx_hash t) \<notin> id_saved w" and "\<not> appendFileSync e (Suc (id_steps w))"
  shows "id_saveIfMatch e w t
           = (None, w\<lparr>id_console := id_console w @ [WriteFailed IOError],
                       id_steps := Suc (Suc (id_steps w))\<rparr>)"
  using assms by (auto simp: id_saveIfMatch_def targetAddress_nonempty Let_def)

lemma enqueue_seen:
  "toLowerCase raw \<in> id_seen w \<Longrightarrow> enqueue w (Some raw) = w"
  by (simp add: enqueue_def Let_def)

lemma processQueue_rejects:
  assumes "q w \<noteq> []"
    and "workers e w (take (min (length (q w)) MAX_QUEUE) (q w)) = (Some x, w')"
  shows "processQueue e w = (Some x, w')" and "q w' = q w"
proof -
  show "processQueue e w = (Some x, w')" using assms by (simp add: processQueue_def Let_def)
  show "q w' = q w"
    using workers_q [of e w "take (min (length (q w)) MAX_QUEUE) (q w)"] assms(2) by simp
qed

lemma loop_body_catches:
  assumes "poll e (w\<lparr>steps := Suc (steps w)\<rparr>) = (Some x, w')"
  shows "console (loop_body e w) = console w' @ [PollError x]"
    and "q (loop_body e w) = q w'" and "outputFile (loop_body e w) = outputFile w'"
    and "saved (loop_body e w) = saved w'"
  using assms by (simp_all add: loop_body_def Let_def)

lemma flaky_fetch: "getTransaction flaky_env i h = Inr (Some example_tx)"
  by (simp add: flaky_env_def)

lemma flaky_clock: "clock flaky_env i = 1000 + int i"
  by (simp add: flaky_env_def)

lemma flaky_write: "appendFileSync flaky_env i = (10 \<le> i)"
  by (simp add: flaky_env_def)

lemma flaky_list:
  "listPendingHashes flaky_env w
     = (Inr [''0xAA''], w\<lparr>calls := calls w @ [Send ''txpool_content''], steps := Suc (steps w)\<rparr>)"
  by (simp add: listPendingHashes_def rpc_def flaky_env_def bucket_hashes_def truthy_hashes_def)

lemma flaky_random: "random flaky_env i = 1 / 2"
  by (simp add: flaky_env_def)

lemma flaky_first_turn: "loop_body flaky_env init_world = after_first_turn"
  by (simp add: loop_body_def poll_def flaky_list enqueueMany_def enqueueMany_body_def lower_0xAA
      has_def add_def processQueue_def getTxWithRetry_first flaky_fetch saveIfMatch_def
      example_tx_def lower_Target targetAddress_nonempty flaky_clock flaky_write
      init_world_def new_TTLSet_def after_first_turn_def Let_def
      CLEAN_EVERY_def SEEN_MAX_def SEEN_TTL_MS_def SAVED_MAX_def SAVED_TTL_MS_def MAX_QUEUE_def
      POLL_MS_def)

lemma flaky_second_turn: "loop_body flaky_env after_first_turn = after_second_turn"
  by (simp add: loop_body_def poll_def flaky_list enqueueMany_def enqueueMany_body_def lower_0xAA
      has_def add_def processQueue_def getTxWithRetry_first flaky_fetch saveIfMatch_def
      example_tx_def lower_Target targetAddress_nonempty flaky_clock flaky_write flaky_random
      new_TTLSet_def after_first_turn_def after_second_turn_def Let_def
      CLEAN_EVERY_def SEEN_MAX_def SEEN_TTL_MS_def SAVED_MAX_def SAVED_TTL_MS_def MAX_QUEUE_def
      POLL_MS_def)

text \<open>
  A write that throws for a matching transaction not yet saved, in the two scripts.
  \<^verbatim>\<open>saveIfMatch\<close> of \<^verbatim>\<open>id.ts\<close> catches it, logs it and returns, with the file and \<^verbatim>\<open>saved\<close>
  unchanged, and a later delivery of a hash that is in \<^verbatim>\<open>seen\<close> is not queued again.
  \<^verbatim>\<open>saveIfMatch\<close> of \<^verbatim>\<open>fetchhhh.ts\<close> lets the error out, with the file and \<^verbatim>\<open>saved\<close> unchanged;
  with a batch of one hash it leaves the worker and \<^verbatim>\<open>processQueue\<close>, which then does not
  remove the batch from the queue, and the \<^verbatim>\<open>catch\<close> of the loop logs it and the turn ends.
\<close>

lemma write_failure_handling:
  assumes "map_option toLowerCase (tx_to t) = Some targetAddress"
    and "toLowerCase (tx_hash t) \<notin> id_saved iw" and "\<not> appendFileSync e (Suc (id_steps iw))"
    and "toLowerCase (tx_hash t) \<notin> fst ` set (m (saved w))" and "\<not> appendFileSync e (Suc (steps w))"
  shows "id_saveIfMatch e iw t
           = (None, iw\<lparr>id_console := id_console iw @ [WriteFailed IOError],
                        id_steps := Suc (Suc (id_steps iw))\<rparr>) \<and>
         (\<forall>iw1 raw. toLowerCase raw \<in> id_seen iw1 \<longrightarrow> enqueue iw1 (Some raw) = iw1) \<and>
         saveIfMatch e w t = (Some IOError, w\<lparr>steps := Suc (Suc (steps w))\<rparr>) \<and>
         (\<forall>w0 h. getTxWithRetry e w0 h = (Some t, w) \<longrightarrow>
            workers e w0 [h] = (Some IOError, w\<lparr>steps := Suc (Suc (steps w))\<rparr>)) \<and>
         (\<forall>wq h x w'. q wq = [h] \<longrightarrow> workers e wq [h] = (Some x, w') \<longrightarrow>
            processQueue e wq = (Some x, w') \<and> q w' = q wq) \<and>
         (\<forall>w0 x w'. poll e (w0\<lparr>steps := Suc (steps w0)\<rparr>) = (Some x, w') \<longrightarrow>
            console (loop_body e w0) = console w' @ [PollError x] \<and>
            q (loop_body e w0) = q w' \<and> outputFile (loop_body e w0) = outputFile w' \<and>
            saved (loop_body e w0) = saved w')"
proof -
  have a: "id_saveIfMatch e iw t
           = (None, iw\<lparr>id_console := id_console iw @ [WriteFailed IOError],
                        id_steps := Suc (Suc (id_steps iw))\<rparr>)"
    using assms(1-3) by (rule id_saveIfMatch_write_fails)
  have hs: "has (clock e) (steps w) (saved w) (toLowerCase (tx_hash t)) = (False, saved w, steps w)"
    using assms(4) by (rule has_absent)
  have b: "saveIfMatch e w t = (Some IOError, w\<lparr>steps := Suc (Suc (steps w))\<rparr>)"
    using saveIfMatch_failed [OF assms(1) hs assms(5)] by simp
  have c: "workers e w0 [h] = (Some IOError, w\<lparr>steps := Suc (Suc (steps w))\<rparr>)"
    if "getTxWithRetry e w0 h = (Some t, w)" for w0 h
    using that b by simp
  have f: "\<forall>iw1 raw. toLowerCase raw \<in> id_seen iw1 \<longrightarrow> enqueue iw1 (Some raw) = iw1"
    by (simp add: enqueue_seen)
  have g: "\<forall>w0 h. getTxWithRetry e w0 h = (Some t, w) \<longrightarrow>
            workers e w0 [h] = (Some IOError, w\<lparr>steps := Suc (Suc (steps w))\<rparr>)"
    using c by blast
  have h: "processQueue e wq = (Some x, w') \<and> q w' = q wq"
    if "q wq = [h]" "workers e wq [h] = (Some x, w')" for wq h x w'
  proof -
    have ne: "q wq \<noteq> []" using that(1) by simp
    have tk: "take (min (length (q wq)) MAX_QUEUE) (q wq) = [h]"
      using that(1) by (simp add: MAX_QUEUE_def)
    show ?thesis
      using processQueue_rejects [OF ne, of e x w'] that(2) tk by simp
  qed
  have h': "\<forall>wq h x w'. q wq = [h] \<longrightarrow> workers e wq [h] = (Some x, w') \<longrightarrow>
            processQueue e wq = (Some x, w') \<and> q w' = q wq"
    using h by blast
  have i: "\<forall>w0 x w'. poll e (w0\<lparr>steps := Suc (steps w0)\<rparr>) = (Some x, w') \<longrightarrow>
            console (loop_body e w0) = console w' @ [PollError x] \<and>
            q (loop_body e w0) = q w' \<and> outputFile (loop_body e w0) = outputFile w' \<and>
            saved (loop_body e w0) = saved w'"
    using loop_body_catches by blast
  show ?thesis
    using a f b g h' i by (intro conjI)
qed

text \<open>
  The transaction of the example and a write that fails: from the initial states, and in
  the first turn of the run.
\<close>

lemma write_failure_handling_example:
  "map_option toLowerCase (tx_to example_tx) = Some targetAddress \<and>
   toLowerCase (tx_hash example_tx) \<notin> id_saved id_init_world \<and>
   \<not> appendFileSync flaky_env (Suc (id_steps id_init_world)) \<and>
   toLowerCase (tx_hash example_tx) \<notin> fst ` set (m (saved init_world)) \<and>
   \<not> appendFileSync flaky_env (Suc (steps init_world)) \<and>
   id_saveIfMatch flaky_env id_init_world example_tx
     = (None, id_init_world\<lparr>id_console := [WriteFailed IOError], id_steps := 2\<rparr>) \<and>
   saveIfMatch flaky_env init_world example_tx = (Some IOError, init_world\<lparr>steps := 2\<rparr>) \<and>
   console (loop_body flaky_env init_world) = [PollError IOError]"
proof -
  have 2: "toLowerCase (tx_hash example_tx) \<notin> id_saved id_init_world"
    by (simp add: id_init_world_def)
  have 3: "\<not> appendFileSync flaky_env (Suc (id_steps id_init_world))"
    by (simp add: flaky_write id_init_world_def)
  have 4: "toLowerCase (tx_hash example_tx) \<notin> fst ` set (m (saved init_world))"
    by (simp add: init_world_def new_TTLSet_def)
  have 5: "\<not> appendFileSync flaky_env (Suc (steps init_world))"
    by (simp add: flaky_write init_world_def)
  note th = write_failure_handling [OF example_tx_match 2 3 4 5]
  have a: "id_saveIfMatch flaky_env id_init_world example_tx
     = (None, id_init_world\<lparr>id_console := [WriteFailed IOError], id_steps := 2\<rparr>)"
    using th by (simp add: id_init_world_def)
  have b: "saveIfMatch flaky_env init_world example_tx = (Some IOError, init_world\<lparr>steps := 2\<rparr>)"
    using th by (simp add: init_world_def)
  have c: "console (loop_body flaky_env init_world) = [PollError IOError]"
    by (simp add: flaky_first_turn after_first_turn_def)
  show ?thesis using example_tx_match 2 3 4 5 a b c by blast
qed

text \<open>
  C8, in \<^verbatim>\<open>fetchhhh.ts\<close>. The node lists one transaction to the target address and the write
  of the first turn fails (interaction 5). \<^verbatim>\<open>saveIfMatch\<close> lets the error out; it reaches the
  \<^verbatim>\<open>catch\<close> of the loop, which logs it, and the hash stays in the queue. The second turn
  fetches it again and writes its line: the match is retried, not lost, where
  \<^verbatim>\<open>saveIfMatch\<close> of \<^verbatim>\<open>id.ts\<close> catches the error itself and the match is lost.
\<close>

theorem failed_write_is_retried:
  "\<not> appendFileSync flaky_env 5 \<and>
   fst (saveIfMatch flaky_env init_world example_tx) = Some IOError \<and>
   console (loop 1 flaky_env init_world) = [PollError IOError] \<and>
   outputFile (loop 1 flaky_env init_world) = [] \<and>
   q (loop 1 flaky_env init_world) = [''0xaa''] \<and>
   outputFile (loop 2 flaky_env init_world) = [record_line flaky_env 1011 ''0xaa''] \<and>
   q (loop 2 flaky_env init_world) = []"
proof -
  have 1: "loop 1 flaky_env init_world = after_first_turn"
    by (simp add: flaky_first_turn)
  have "loop 2 flaky_env init_world = loop_body flaky_env (loop_body flaky_env init_world)"
    by (simp add: numeral_2_eq_2)
  then have 2: "loop 2 flaky_env init_world = after_second_turn"
    by (simp add: flaky_first_turn flaky_second_turn)
  have 3: "fst (saveIfMatch flaky_env init_world example_tx) = Some IOError"
    by (simp add: saveIfMatch_def example_tx_def lower_Target targetAddress_nonempty has_def
        init_world_def new_TTLSet_def flaky_write Let_def)
  show ?thesis
    unfolding 1 2 using 3 by (simp add: after_first_turn_def after_second_turn_def flaky_write)
qed


end
